theory Spec2Isabelle
  imports Main
begin

section \<open>Values shared by the data layer\<close>

text \<open>
  JavaScript strings are modelled as \<open>string\<close>: a list of code units, restricted to the
  code units below 256. Numbers that occur as identifiers, page indexes and counts are
  modelled as integers; \<open>String(n)\<close> is then the decimal numeral of \<open>n\<close>.
\<close>

definition digit_char :: "nat \<Rightarrow> char" where
  "digit_char d = ''0123456789'' ! d"

fun digits :: "nat \<Rightarrow> string" where
  "digits n = (if n < 10 then [digit_char n] else digits (n div 10) @ [digit_char (n mod 10)])"

declare digits.simps [simp del]

definition String_num :: "int \<Rightarrow> string" where
  "String_num i = (if i < 0 then CHR ''-'' # digits (nat (- i)) else digits (nat i))"

text \<open>An identifier is \<open>number | string\<close> in the type declarations.\<close>

datatype ident = Num int | Str string

fun String_id :: "ident \<Rightarrow> string" where
  "String_id (Num n) = String_num n"
| "String_id (Str s) = s"

text \<open>Truthiness of an identifier: \<open>0\<close> and the empty string are falsy.\<close>

fun truthy :: "ident \<Rightarrow> bool" where
  "truthy (Num n) = (n \<noteq> 0)"
| "truthy (Str s) = (s \<noteq> [])"

text \<open>\<open>Array.prototype.join(',')\<close> on elements already converted to strings.\<close>

fun join_comma :: "string list \<Rightarrow> string" where
  "join_comma [] = []"
| "join_comma [x] = x"
| "join_comma (x # y # ys) = x @ '','' @ join_comma (y # ys)"

record category =
  c_id :: ident
  c_name :: string
  c_color :: "string option"

record network =
  n_id :: ident
  n_name :: string

text \<open>
  The fields of \<open>Article\<close> that the data layer reads. An optional or nullable field is an
  \<open>option\<close>; \<open>None\<close> stands for both \<open>undefined\<close> and \<open>null\<close>, which the code
  never tells apart (\<open>!= null\<close>, \<open>??\<close>, \<open>?.\<close>). The status is the string the API sent.
\<close>

record article =
  a_id :: ident
  title :: string
  content :: "string option"
  status :: string
  featured :: bool
  categoryId :: "ident option"
  categoryIds :: "ident list option"
  networkId :: "ident option"
  network :: "network option"
  createdAt :: "string option"

section \<open>Query parameter builder (services/api.ts)\<close>

record params =
  p_page :: "int option"
  p_limit :: "int option"
  p_search :: "string option"
  p_status :: "string option"
  p_networkId :: "ident option"
  p_featured :: "bool option"
  p_sortBy :: "string option"
  p_sortDir :: "string option"
  p_categoryIds :: "ident list option"

text \<open>
  A guarded assignment \<open>if (guard) q.k = v\<close>: the third argument is the value to store
  when the guard holds, and \<open>None\<close> when it does not (then \<open>q\<close> is left as it is).
\<close>

fun assign :: "(string \<rightharpoonup> string) \<Rightarrow> string \<Rightarrow> string option \<Rightarrow> (string \<rightharpoonup> string)" where
  "assign q k None = q"
| "assign q k (Some v) = q(k \<mapsto> v)"

text \<open>
  \<open>buildArticleParams\<close>: the result object \<open>q\<close> is a map from keys to strings, updated
  by one guarded assignment per field, in the order of the source. The guards are
  \<open>!= null\<close> for \<open>page\<close>, \<open>limit\<close> and \<open>networkId\<close>, truthiness for the string fields and
  for \<open>featured\<close>, and presence with a positive length for \<open>categoryIds\<close>.
\<close>

definition buildArticleParams :: "params \<Rightarrow> (string \<rightharpoonup> string)" where
  "buildArticleParams ps =
    (let q = Map.empty;
         q = assign q ''page'' (case p_page ps of Some n \<Rightarrow> Some (String_num n) | None \<Rightarrow> None);
         q = assign q ''limit'' (case p_limit ps of Some n \<Rightarrow> Some (String_num n) | None \<Rightarrow> None);
         q = assign q ''search'' (case p_search ps of Some s \<Rightarrow> if s \<noteq> [] then Some s else None | None \<Rightarrow> None);
         q = assign q ''status'' (case p_status ps of Some s \<Rightarrow> if s \<noteq> [] then Some s else None | None \<Rightarrow> None);
         q = assign q ''networkId'' (case p_networkId ps of Some i \<Rightarrow> Some (String_id i) | None \<Rightarrow> None);
         q = assign q ''featured'' (case p_featured ps of Some b \<Rightarrow> if b then Some ''true'' else None | None \<Rightarrow> None);
         q = assign q ''sortBy'' (case p_sortBy ps of Some s \<Rightarrow> if s \<noteq> [] then Some s else None | None \<Rightarrow> None);
         q = assign q ''sortDir'' (case p_sortDir ps of Some s \<Rightarrow> if s \<noteq> [] then Some s else None | None \<Rightarrow> None);
         q = assign q ''categoryIds''
               (case p_categoryIds ps of
                  Some ids \<Rightarrow> if length ids > 0 then Some (join_comma (map String_id ids)) else None
                | None \<Rightarrow> None)
     in q)"

text \<open>The query of Scenario 1 and a fully populated query.\<close>

definition scenario1 :: params where
  "scenario1 = \<lparr>p_page = Some 0, p_limit = Some 20, p_search = Some [], p_status = None,
     p_networkId = None, p_featured = Some False, p_sortBy = None, p_sortDir = None,
     p_categoryIds = None\<rparr>"

definition full_query :: params where
  "full_query = \<lparr>p_page = Some 2, p_limit = Some 20, p_search = Some ''climate'',
     p_status = Some ''published'', p_networkId = Some (Num 0), p_featured = Some True,
     p_sortBy = Some ''createdAt'', p_sortDir = Some ''desc'',
     p_categoryIds = Some [Num 1, Str ''x'', Num 3]\<rparr>"

section \<open>Association resolver (ArticlesPage)\<close>

text \<open>
  \<open>buildCategoryMap\<close>: a \<open>Map\<close> built from the entries in order, so a later entry with
  the same key replaces an earlier one.
\<close>

definition buildCategoryMap :: "category list \<Rightarrow> (string \<rightharpoonup> category)" where
  "buildCategoryMap categories = foldl (\<lambda>m c. m(String_id (c_id c) \<mapsto> c)) Map.empty categories"

text \<open>\<open>resolveCategory\<close>; the result \<open>None\<close> is the source's \<open>null\<close>.\<close>

definition resolveCategory :: "article \<Rightarrow> (string \<rightharpoonup> category) \<Rightarrow> category option" where
  "resolveCategory a catMap =
    (let ids = (case categoryIds a of Some xs \<Rightarrow> map String_id xs | None \<Rightarrow> [])
     in if length ids > 0 then catMap (ids ! 0)
        else case categoryId a of
               Some c \<Rightarrow> catMap (String_id c)
             | None \<Rightarrow> None)"

text \<open>
  The category cell of the articles table in the page variant kept in services/api.ts
  (lines 584-586): \<open>firstId\<close> is the first element of \<open>categoryIds\<close> when there is one,
  else the scalar converted to a string when the scalar is truthy; the cell shows
  \<open>categoryMap[firstId]\<close> when \<open>firstId\<close> is truthy. \<open>categoryMap\<close> is the own-property
  lookup of the object built by \<open>Object.fromEntries\<close>.
\<close>

definition row_firstId :: "article \<Rightarrow> ident option" where
  "row_firstId a =
    (case (case categoryIds a of Some (x # xs) \<Rightarrow> Some x | _ \<Rightarrow> None) of
       Some x \<Rightarrow> Some x
     | None \<Rightarrow> (case categoryId a of
                  Some c \<Rightarrow> if truthy c then Some (Str (String_id c)) else None
                | None \<Rightarrow> None))"

definition row_category :: "article \<Rightarrow> (string \<rightharpoonup> category) \<Rightarrow> category option" where
  "row_category a categoryMap =
    (case row_firstId a of
       Some firstId \<Rightarrow> if truthy firstId then categoryMap (String_id firstId) else None
     | None \<Rightarrow> None)"

section \<open>Response normalizer (services/api.ts)\<close>

text \<open>
  A JSON value. An object is the list of its properties, each key once; \<open>map_of\<close> reads a
  property.
\<close>

datatype json = JNull | JBool bool | JNum int | JStr string | JArr "json list"
  | JObj "(string \<times> json) list"

definition envelope_keys :: "string list" where
  "envelope_keys = [''data'', ''items'', ''results'', ''articles'', ''categories'',
     ''notifications'', ''networks'']"

text \<open>The \<open>for\<close> loop over the candidate keys, returning at the first array.\<close>

fun first_array :: "(string \<times> json) list \<Rightarrow> string list \<Rightarrow> json list option" where
  "first_array obj [] = None"
| "first_array obj (key # keys) =
     (case map_of obj key of
        Some (JArr val) \<Rightarrow> Some val
      | _ \<Rightarrow> first_array obj keys)"

text \<open>
  \<open>toArray\<close>. \<open>null\<close> fails the guard \<open>data && typeof data === 'object'\<close>, as every
  value that is not an object does. The console diagnostic of the last branch is not part
  of the result.
\<close>

fun toArray :: "json \<Rightarrow> json list" where
  "toArray (JArr xs) = xs"
| "toArray (JObj obj) = (case first_array obj envelope_keys of Some val \<Rightarrow> val | None \<Rightarrow> [])"
| "toArray JNull = []"
| "toArray (JBool b) = []"
| "toArray (JNum n) = []"
| "toArray (JStr s) = []"

section \<open>Error classification (services/api.ts, CategoriesPage)\<close>

record http_response =
  r_status :: int
  r_message :: "string option"

record axios_error =
  ae_response :: "http_response option"
  ae_message :: "string option"

record api_error =
  e_message :: string
  e_status :: "int option"

text \<open>\<open>x || y\<close> on optional strings: the left operand when it is a non-empty string.\<close>

fun or_else :: "string option \<Rightarrow> string option \<Rightarrow> string option" where
  "or_else (Some s) y = (if s \<noteq> [] then Some s else y)"
| "or_else None y = y"

text \<open>The response interceptor's rejection handler: the error the caller receives.\<close>

definition interceptor :: "axios_error \<Rightarrow> api_error" where
  "interceptor error =
    (let msg = (case or_else (or_else (case ae_response error of Some r \<Rightarrow> r_message r | None \<Rightarrow> None)
                                      (ae_message error))
                             (Some ''Une erreur est survenue'') of
                  Some m \<Rightarrow> m | None \<Rightarrow> [])
     in \<lparr>e_message = msg,
         e_status = (case ae_response error of Some r \<Rightarrow> Some (r_status r) | None \<Rightarrow> None)\<rparr>)"

record snack =
  msg :: string
  sev :: string

record page_state =
  confirmDelete :: "category option"
  snack_bar :: "snack option"

definition in_use_message :: string where
  "in_use_message = ''Impossible de supprimer: cat'' @ [CHR 0xE9] @ ''gorie utilis'' @ [CHR 0xE9]
     @ ''e par des articles''"

text \<open>\<open>onError\<close> of the category page's \<open>deleteMut\<close>.\<close>

definition deleteMut_onError :: "api_error \<Rightarrow> page_state \<Rightarrow> page_state" where
  "deleteMut_onError e st =
    (let st = st\<lparr>confirmDelete := None\<rparr>
     in if e_status e = Some 409
        then st\<lparr>snack_bar := Some \<lparr>msg = in_use_message, sev = ''warning''\<rparr>\<rparr>
        else st\<lparr>snack_bar := Some \<lparr>msg = e_message e, sev = ''error''\<rparr>\<rparr>)"

text \<open>A failed delete: the interceptor rejects, the mutation hands the error to \<open>onError\<close>.\<close>

definition delete_failed :: "axios_error \<Rightarrow> page_state \<Rightarrow> page_state" where
  "delete_failed error st = deleteMut_onError (interceptor error) st"

section \<open>Collection filter and sort engine (ArticlesPage, articleFilters.test.ts)\<close>

text \<open>
  \<open>toLowerCase\<close> on code units below 256: the letters A-Z and the accented capitals
  0xC0-0xDE, the multiplication sign 0xD7 apart, move up by 32.
\<close>

definition toLowerCase_unit :: "char \<Rightarrow> char" where
  "toLowerCase_unit c =
    (let n = (of_char c :: nat)
     in if (65 \<le> n \<and> n \<le> 90) \<or> (192 \<le> n \<and> n \<le> 222 \<and> n \<noteq> 215)
        then char_of (n + 32) else c)"

definition toLowerCase :: "string \<Rightarrow> string" where
  "toLowerCase s = map toLowerCase_unit s"

fun startsWith :: "string \<Rightarrow> string \<Rightarrow> bool" where
  "startsWith s [] = True"
| "startsWith [] (q # qs) = False"
| "startsWith (c # s) (q # qs) = (c = q \<and> startsWith s qs)"

text \<open>\<open>String.prototype.includes\<close> (the name is a keyword here): the argument occurs at some position.\<close>

fun includes_str :: "string \<Rightarrow> string \<Rightarrow> bool" where
  "includes_str [] q = (q = [])"
| "includes_str (c # s) q = (startsWith (c # s) q \<or> includes_str s q)"

text \<open>
  The search step (ArticlesPage lines 704-710, \<open>filterArticles\<close> lines 22-28). The search
  text is optional in \<open>filterArticles\<close>; the page passes its state, a string.
\<close>

definition search_step :: "string option \<Rightarrow> article list \<Rightarrow> article list" where
  "search_step search list =
    (case search of
       None \<Rightarrow> list
     | Some s \<Rightarrow>
         if s \<noteq> [] then
           (let q = toLowerCase s
            in filter (\<lambda>a. includes_str (toLowerCase (title a)) q \<or>
                           (case content a of Some c \<Rightarrow> includes_str (toLowerCase c) q | None \<Rightarrow> False))
                 list)
         else list)"

text \<open>
  The filter of the page variant kept in services/api.ts (lines 479-483), which has a
  search text and a status filter only.
\<close>

definition filtered_simple :: "article list \<Rightarrow> string \<Rightarrow> string \<Rightarrow> article list" where
  "filtered_simple articles search statusFilter =
    filter (\<lambda>a. let matchSearch = includes_str (toLowerCase (title a)) (toLowerCase search);
                    matchStatus = (statusFilter = ''all'' \<or> status a = statusFilter)
                in matchSearch \<and> matchStatus)
      articles"

text \<open>
  \<open>Array.prototype.sort\<close> with a comparator: a stable sort; \<open>x\<close> stays before \<open>y\<close> unless
  the comparator is positive on them.
\<close>

fun insert_cmp :: "('a \<Rightarrow> 'a \<Rightarrow> int) \<Rightarrow> 'a \<Rightarrow> 'a list \<Rightarrow> 'a list" where
  "insert_cmp cmp x [] = [x]"
| "insert_cmp cmp x (y # ys) = (if cmp x y \<le> 0 then x # y # ys else y # insert_cmp cmp x ys)"

definition sort_cmp :: "('a \<Rightarrow> 'a \<Rightarrow> int) \<Rightarrow> 'a list \<Rightarrow> 'a list" where
  "sort_cmp cmp xs = foldr (insert_cmp cmp) xs []"

datatype SortCol = Title | CreatedAt | Status | NetworkId

datatype SortDir = Asc | Desc

text \<open>The two strings \<open>av\<close>, \<open>bv\<close> of the comparator are this key of \<open>a\<close> and of \<open>b\<close>.\<close>

fun sortKey :: "SortCol \<Rightarrow> article \<Rightarrow> string" where
  "sortKey Title a = title a"
| "sortKey Status a = status a"
| "sortKey NetworkId a = (case networkId a of Some i \<Rightarrow> String_id i | None \<Rightarrow> [])"
| "sortKey CreatedAt a = (case createdAt a of Some s \<Rightarrow> s | None \<Rightarrow> [])"

text \<open>
  The comparator handed to \<open>sort\<close>. \<open>localeCompare\<close> belongs to the platform and is the
  parameter \<open>lc\<close>.
\<close>

definition comparator :: "(string \<Rightarrow> string \<Rightarrow> int) \<Rightarrow> SortCol \<Rightarrow> SortDir \<Rightarrow> article \<Rightarrow> article \<Rightarrow> int" where
  "comparator lc col dir a b =
    (let av = sortKey col a; bv = sortKey col b
     in if dir = Asc then lc av bv else lc bv av)"

text \<open>
  Arrays are objects: a store holds them by reference (the index in the store).
  \<open>[...xs]\<close> allocates a copy, \<open>sort\<close> sorts the array it is called on in place and
  returns the same reference.
\<close>

type_synonym store = "article list list"

definition spread :: "store \<Rightarrow> nat \<Rightarrow> store \<times> nat" where
  "spread st r = (st @ [st ! r], length st)"

definition array_sort :: "(article \<Rightarrow> article \<Rightarrow> int) \<Rightarrow> store \<Rightarrow> nat \<Rightarrow> store \<times> nat" where
  "array_sort cmp st r = (st[r := sort_cmp cmp (st ! r)], r)"

text \<open>
  \<open>sortArticles\<close> (articleFilters.test.ts lines 54-65; the sort step of the page, lines
  731-740, is the same expression). \<open>articles\<close> is a reference into the store.
\<close>

definition sortArticles ::
  "(string \<Rightarrow> string \<Rightarrow> int) \<Rightarrow> store \<Rightarrow> nat \<Rightarrow> SortCol \<Rightarrow> SortDir \<Rightarrow> store \<times> nat" where
  "sortArticles lc st articles col dir =
    (let (st1, copy) = spread st articles
     in array_sort (comparator lc col dir) st1 copy)"

text \<open>Comparison of strings by code units, one collation among those \<open>lc\<close> ranges over.\<close>

fun unit_compare :: "string \<Rightarrow> string \<Rightarrow> int" where
  "unit_compare [] [] = 0"
| "unit_compare [] (y # ys) = -1"
| "unit_compare (x # xs) [] = 1"
| "unit_compare (x # xs) (y # ys) =
     (if (of_char x :: nat) < of_char y then -1
      else if (of_char y :: nat) < of_char x then 1
      else unit_compare xs ys)"

section \<open>Aggregate statistics (DashboardPage)\<close>

text \<open>
  A \<open>Map<string, number>\<close> keeps its keys in insertion order: an association list in
  which \<open>set\<close> replaces the value of a key in place and appends a new key at the end.
\<close>

fun map_set :: "string \<Rightarrow> nat \<Rightarrow> (string \<times> nat) list \<Rightarrow> (string \<times> nat) list" where
  "map_set k v [] = [(k, v)]"
| "map_set k v ((k', v') # m) = (if k' = k then (k, v) # m else (k', v') # map_set k v m)"

text \<open>\<open>m.set(key, (m.get(key) ?? 0) + 1)\<close>\<close>

definition increment :: "string \<Rightarrow> (string \<times> nat) list \<Rightarrow> (string \<times> nat) list" where
  "increment key m = map_set key ((case map_of m key of Some c \<Rightarrow> c | None \<Rightarrow> 0) + 1) m"

definition getArticleCategoryIds :: "article \<Rightarrow> ident list" where
  "getArticleCategoryIds a =
    (if (case categoryIds a of Some xs \<Rightarrow> length xs > 0 | None \<Rightarrow> False)
     then (case categoryIds a of Some xs \<Rightarrow> xs | None \<Rightarrow> [])
     else (case categoryId a of Some c \<Rightarrow> [c] | None \<Rightarrow> []))"

definition network_prefix :: string where
  "network_prefix = ''R'' @ [CHR 0xE9] @ ''seau #''"

definition category_prefix :: string where
  "category_prefix = ''Cat'' @ [CHR 0xE9] @ ''gorie #''"

text \<open>
  The group name of an article in \<open>networkMap\<close>:
  \<open>a.network?.name ?? (a.networkId ? `R\<dots>seau #${a.networkId}` : null)\<close>.
\<close>

definition network_name :: "article \<Rightarrow> string option" where
  "network_name a =
    (case network a of
       Some n \<Rightarrow> Some (n_name n)
     | None \<Rightarrow> (case networkId a of
                  Some i \<Rightarrow> if truthy i then Some (network_prefix @ String_id i) else None
                | None \<Rightarrow> None))"

definition networkMap :: "article list \<Rightarrow> (string \<times> nat) list" where
  "networkMap articles =
    foldl (\<lambda>m a. case network_name a of
                    Some name \<Rightarrow> if name \<noteq> [] then increment name m else m
                  | None \<Rightarrow> m)
      [] articles"

definition byNetwork :: "article list \<Rightarrow> (string \<times> nat) list" where
  "byNetwork articles =
    take 5 (sort_cmp (\<lambda>a b. int (snd b) - int (snd a)) (networkMap articles))"

definition catCountMap :: "article list \<Rightarrow> (string \<times> nat) list" where
  "catCountMap articles =
    foldl (\<lambda>m a. foldl (\<lambda>m cid. increment (String_id cid) m) m (getArticleCategoryIds a))
      [] articles"

definition BRAND_COLORS :: "string list" where
  "BRAND_COLORS = [''#2979FF'', ''#7B2FBE'', ''#5040D8'', ''#00BCD4'', ''#E91E63'',
     ''#4CAF50'', ''#FF9800'', ''#9C27B0'', ''#03A9F4'', ''#8BC34A'']"

record pie_slice =
  ps_name :: string
  ps_value :: nat
  ps_color :: string

definition pieData :: "article list \<Rightarrow> category list \<Rightarrow> pie_slice list" where
  "pieData articles categories =
    (let categoryById = buildCategoryMap categories;
         entries = catCountMap articles;
         slices = map (\<lambda>((cid, count), i).
                    let cat = categoryById cid
                    in \<lparr>ps_name = (case cat of Some c \<Rightarrow> c_name c | None \<Rightarrow> category_prefix @ cid),
                        ps_value = count,
                        ps_color = (case (case cat of Some c \<Rightarrow> c_color c | None \<Rightarrow> None) of
                                      Some col \<Rightarrow> col
                                    | None \<Rightarrow> BRAND_COLORS ! (i mod length BRAND_COLORS))\<rparr>)
                  (zip entries [0 ..< length entries])
     in sort_cmp (\<lambda>a b. int (ps_value b) - int (ps_value a))
          (filter (\<lambda>d. ps_value d > 0) slices))"

record stats_t =
  s_total :: nat
  s_published :: nat
  s_draft :: nat
  s_archived :: nat
  s_featured :: nat
  s_byNetwork :: "(string \<times> nat) list"
  s_pieData :: "pie_slice list"

definition stats :: "article list \<Rightarrow> category list \<Rightarrow> stats_t" where
  "stats articles categories =
    \<lparr>s_total = length articles,
     s_published = length (filter (\<lambda>a. status a = ''published'') articles),
     s_draft = length (filter (\<lambda>a. status a = ''draft'') articles),
     s_archived = length (filter (\<lambda>a. status a = ''archived'') articles),
     s_featured = length (filter (\<lambda>a. featured a) articles),
     s_byNetwork = byNetwork articles,
     s_pieData = pieData articles categories\<rparr>"

section \<open>Notions of the statements and fixtures\<close>

text \<open>A category and articles in the shape of the fixtures of the test files.\<close>

definition cat_politics :: category where
  "cat_politics = \<lparr>c_id = Num 1, c_name = ''Politics'', c_color = None\<rparr>"

definition art :: "string \<Rightarrow> ident list option \<Rightarrow> ident option \<Rightarrow> article" where
  "art s cids cid = \<lparr>a_id = Num 1, title = ''Default'', content = Some ''Default content'',
     status = s, featured = False, categoryId = cid, categoryIds = cids, networkId = None,
     network = None, createdAt = None\<rparr>"

definition four_articles :: "article list" where
  "four_articles = [art ''published'' (Some [Num 1]) None, art ''published'' (Some [Num 2]) None,
     art ''draft'' (Some [Num 1]) None, art ''archived'' (Some [Num 1, Num 2]) None]"

text \<open>Whether a property read gave an array (\<open>Array.isArray(val)\<close>).\<close>

definition is_array :: "json option \<Rightarrow> bool" where
  "is_array v = (case v of Some (JArr items) \<Rightarrow> True | _ \<Rightarrow> False)"

text \<open>An enveloped list response, a conflict response and a response without a message.\<close>

definition enveloped :: json where
  "enveloped = JObj [(''total'', JNum 2), (''items'', JStr ''x''),
     (''articles'', JArr [JNum 7]), (''results'', JArr [JNum 1, JNum 2])]"

definition conflict :: axios_error where
  "conflict = \<lparr>ae_response = Some \<lparr>r_status = 409, r_message = Some ''Conflict''\<rparr>,
     ae_message = Some ''Request failed with status code 409''\<rparr>"

definition server_error :: axios_error where
  "server_error = \<lparr>ae_response = Some \<lparr>r_status = 500, r_message = None\<rparr>, ae_message = None\<rparr>"

definition idle :: page_state where
  "idle = \<lparr>confirmDelete = Some cat_politics, snack_bar = None\<rparr>"

text \<open>
  Reading a count, \<open>m.get(k) ?? 0\<close>, and the name of the pie slice of a category id.
\<close>

definition count_of :: "(string \<times> nat) list \<Rightarrow> string \<Rightarrow> nat" where
  "count_of m k = (case map_of m k of Some c \<Rightarrow> c | None \<Rightarrow> 0)"

definition slice_name :: "category list \<Rightarrow> string \<Rightarrow> string" where
  "slice_name categories cid =
     (case buildCategoryMap categories cid of Some c \<Rightarrow> c_name c | None \<Rightarrow> category_prefix @ cid)"

definition cat_zero :: category where
  "cat_zero = \<lparr>c_id = Num 0, c_name = ''Zero'', c_color = None\<rparr>"

text \<open>
  The wording of the search filter: \<open>q\<close> occurs in \<open>s\<close> as a substring when letter case
  is disregarded, that is, some part of \<open>s\<close> and \<open>q\<close> are equal once both are lowered.
\<close>

definition ci_contains :: "string \<Rightarrow> string \<Rightarrow> bool" where
  "ci_contains s q = (\<exists>pre mid post. s = pre @ mid @ post \<and> toLowerCase mid = toLowerCase q)"

text \<open>The third fixture article of articleFilters.test.ts.\<close>

definition tech_article :: article where
  "tech_article = \<lparr>a_id = Num 3, title = ''Tech innovation'',
     content = Some ''New AI breakthroughs announced'', status = ''draft'', featured = True,
     categoryId = None, categoryIds = Some [Num 3], networkId = Some (Num 10), network = None,
     createdAt = Some ''2024-01-01''\<rparr>"

text \<open>The article of the dashboard test "falls back to ... when network name is missing".\<close>

definition net99_article :: article where
  "net99_article = \<lparr>a_id = Num 9, title = ''Test'', content = Some ''content'', status = ''draft'',
     featured = False, categoryId = None, categoryIds = None, networkId = Some (Num 99),
     network = None, createdAt = None\<rparr>"

text \<open>
  What the sort relies on from \<open>localeCompare\<close>, on the keys \<open>K\<close> that occur: swapping the
  arguments swaps the sign, and the order is transitive. Two different strings may compare
  as equal.
\<close>

definition consistent_on :: "(string \<Rightarrow> string \<Rightarrow> int) \<Rightarrow> string set \<Rightarrow> bool" where
  "consistent_on lc K =
    ((\<forall>x \<in> K. \<forall>y \<in> K. (lc x y < 0) = (0 < lc y x)) \<and>
     (\<forall>x \<in> K. \<forall>y \<in> K. \<forall>z \<in> K. lc x y \<le> 0 \<and> lc y z \<le> 0 \<longrightarrow> lc x z \<le> 0))"

text \<open>
  No ties on a column: no article of the collection compares as equal, on the key of the
  column, with an article after it.
\<close>

fun no_ties :: "(string \<Rightarrow> string \<Rightarrow> int) \<Rightarrow> SortCol \<Rightarrow> article list \<Rightarrow> bool" where
  "no_ties lc col [] = True"
| "no_ties lc col (a # as) =
     ((\<forall>b \<in> set as. lc (sortKey col a) (sortKey col b) \<noteq> 0) \<and> no_ties lc col as)"

text \<open>
  A collation for which the soft hyphen (code unit 0xAD) is ignorable, as it is for
  \<open>localeCompare\<close>: the strings are compared by code units once the soft hyphens are
  taken out.
\<close>

definition soft_compare :: "string \<Rightarrow> string \<Rightarrow> int" where
  "soft_compare x y =
     unit_compare (filter (\<lambda>c. c \<noteq> CHR 0xAD) x) (filter (\<lambda>c. c \<noteq> CHR 0xAD) y)"

text \<open>A store with one array of three articles, told apart by their titles.\<close>

definition titled :: "string \<Rightarrow> article" where
  "titled t = \<lparr>a_id = Num 1, title = t, content = Some ''Default content'', status = ''draft'',
     featured = False, categoryId = None, categoryIds = None, networkId = None, network = None,
     createdAt = None\<rparr>"

definition shelf :: store where
  "shelf = [[titled ''b'', titled ''a'', titled ''c'']]"

text \<open>A store with two articles whose titles differ by a soft hyphen only.\<close>

definition hyphen_shelf :: store where
  "hyphen_shelf = [[titled ''a'', titled (''a'' @ [CHR 0xAD])]]"

section \<open>Properties\<close>

lemma digits_0: "digits 0 = ''0''"
  by (simp add: digits.simps digit_char_def)

lemma String_num_0: "String_num 0 = ''0''"
  by (simp add: String_num_def digits_0)

subsection \<open>Query parameter builder\<close>

lemma assign_apply:
  "assign q k vo k' = (if k' = k then (case vo of Some v \<Rightarrow> Some v | None \<Rightarrow> q k') else q k')"
  by (cases vo) simp_all

lemma params_page:
  "buildArticleParams ps ''page'' = (case p_page ps of Some n \<Rightarrow> Some (String_num n) | None \<Rightarrow> None)"
  by (simp add: buildArticleParams_def Let_def assign_apply split: option.split)

lemma params_limit:
  "buildArticleParams ps ''limit'' = (case p_limit ps of Some n \<Rightarrow> Some (String_num n) | None \<Rightarrow> None)"
  by (simp add: buildArticleParams_def Let_def assign_apply split: option.split)

lemma params_search:
  "buildArticleParams ps ''search'' =
     (case p_search ps of Some s \<Rightarrow> if s \<noteq> [] then Some s else None | None \<Rightarrow> None)"
  by (simp add: buildArticleParams_def Let_def assign_apply split: option.split)

lemma params_status:
  "buildArticleParams ps ''status'' =
     (case p_status ps of Some s \<Rightarrow> if s \<noteq> [] then Some s else None | None \<Rightarrow> None)"
  by (simp add: buildArticleParams_def Let_def assign_apply split: option.split)

lemma params_networkId:
  "buildArticleParams ps ''networkId'' =
     (case p_networkId ps of Some i \<Rightarrow> Some (String_id i) | None \<Rightarrow> None)"
  by (simp add: buildArticleParams_def Let_def assign_apply split: option.split)

lemma params_featured:
  "buildArticleParams ps ''featured'' =
     (case p_featured ps of Some b \<Rightarrow> if b then Some ''true'' else None | None \<Rightarrow> None)"
  by (simp add: buildArticleParams_def Let_def assign_apply split: option.split)

lemma params_sortBy:
  "buildArticleParams ps ''sortBy'' =
     (case p_sortBy ps of Some s \<Rightarrow> if s \<noteq> [] then Some s else None | None \<Rightarrow> None)"
  by (simp add: buildArticleParams_def Let_def assign_apply split: option.split)

lemma params_sortDir:
  "buildArticleParams ps ''sortDir'' =
     (case p_sortDir ps of Some s \<Rightarrow> if s \<noteq> [] then Some s else None | None \<Rightarrow> None)"
  by (simp add: buildArticleParams_def Let_def assign_apply split: option.split)

lemma params_categoryIds:
  "buildArticleParams ps ''categoryIds'' =
     (case p_categoryIds ps of
        Some ids \<Rightarrow> if ids \<noteq> [] then Some (join_comma (map String_id ids)) else None
      | None \<Rightarrow> None)"
  by (simp add: buildArticleParams_def Let_def assign_apply split: option.split)

lemma params_other:
  "k \<notin> {''page'', ''limit'', ''search'', ''status'', ''networkId'', ''featured'', ''sortBy'',
      ''sortDir'', ''categoryIds''} \<Longrightarrow> buildArticleParams ps k = None"
  by (simp add: buildArticleParams_def Let_def assign_apply)

text \<open>
  C1. Parameter building is omission-correct: \<open>page\<close> and \<open>networkId\<close> equal to 0 are
  present as "0"; \<open>search\<close> and \<open>status\<close> equal to the empty string are absent;
  the \<open>featured\<close> key is present exactly when \<open>featured\<close> is true, and then it is "true";
  an empty \<open>categoryIds\<close> is absent and a non-empty one is its elements joined by a comma in
  the order of the list; a field that is absent from the query is absent from the result,
  and the result has no key besides the nine documented ones.
\<close>

theorem buildArticleParams_omission:
  "(p_page ps = Some 0 \<longrightarrow> buildArticleParams ps ''page'' = Some ''0'') \<and>
   (p_networkId ps = Some (Num 0) \<longrightarrow> buildArticleParams ps ''networkId'' = Some ''0'') \<and>
   (p_search ps = Some [] \<longrightarrow> buildArticleParams ps ''search'' = None) \<and>
   (p_status ps = Some [] \<longrightarrow> buildArticleParams ps ''status'' = None) \<and>
   buildArticleParams ps ''featured'' = (if p_featured ps = Some True then Some ''true'' else None) \<and>
   (p_categoryIds ps = Some [] \<longrightarrow> buildArticleParams ps ''categoryIds'' = None) \<and>
   (\<forall>ids. p_categoryIds ps = Some ids \<and> ids \<noteq> [] \<longrightarrow>
      buildArticleParams ps ''categoryIds'' = Some (join_comma (map String_id ids))) \<and>
   (p_page ps = None \<longrightarrow> buildArticleParams ps ''page'' = None) \<and>
   (p_limit ps = None \<longrightarrow> buildArticleParams ps ''limit'' = None) \<and>
   (p_search ps = None \<longrightarrow> buildArticleParams ps ''search'' = None) \<and>
   (p_status ps = None \<longrightarrow> buildArticleParams ps ''status'' = None) \<and>
   (p_networkId ps = None \<longrightarrow> buildArticleParams ps ''networkId'' = None) \<and>
   (p_sortBy ps = None \<longrightarrow> buildArticleParams ps ''sortBy'' = None) \<and>
   (p_sortDir ps = None \<longrightarrow> buildArticleParams ps ''sortDir'' = None) \<and>
   (p_categoryIds ps = None \<longrightarrow> buildArticleParams ps ''categoryIds'' = None) \<and>
   dom (buildArticleParams ps) \<subseteq>
     {''page'', ''limit'', ''search'', ''status'', ''networkId'', ''featured'', ''sortBy'',
      ''sortDir'', ''categoryIds''}"
proof -
  have feat: "buildArticleParams ps ''featured'' = (if p_featured ps = Some True then Some ''true'' else None)"
    by (simp add: params_featured split: option.split)
  have d: "dom (buildArticleParams ps) \<subseteq>
     {''page'', ''limit'', ''search'', ''status'', ''networkId'', ''featured'', ''sortBy'',
      ''sortDir'', ''categoryIds''}"
  proof
    fix k assume k: "k \<in> dom (buildArticleParams ps)"
    show "k \<in> {''page'', ''limit'', ''search'', ''status'', ''networkId'', ''featured'', ''sortBy'',
      ''sortDir'', ''categoryIds''}"
    proof (rule ccontr)
      assume "k \<notin> {''page'', ''limit'', ''search'', ''status'', ''networkId'', ''featured'', ''sortBy'',
      ''sortDir'', ''categoryIds''}"
      then have "buildArticleParams ps k = None" by (rule params_other)
      with k show False by (simp only: domIff not_True_eq_False simp_thms)
    qed
  qed
  have c1: "p_page ps = Some 0 \<longrightarrow> buildArticleParams ps ''page'' = Some ''0''"
    by (simp add: params_page String_num_0)
  have c2: "p_networkId ps = Some (Num 0) \<longrightarrow> buildArticleParams ps ''networkId'' = Some ''0''"
    by (simp add: params_networkId String_num_0)
  have c3: "p_search ps = Some [] \<longrightarrow> buildArticleParams ps ''search'' = None"
    by (simp add: params_search)
  have c4: "p_status ps = Some [] \<longrightarrow> buildArticleParams ps ''status'' = None"
    by (simp add: params_status)
  have c5: "p_categoryIds ps = Some [] \<longrightarrow> buildArticleParams ps ''categoryIds'' = None"
    by (simp add: params_categoryIds)
  have c6: "\<forall>ids. p_categoryIds ps = Some ids \<and> ids \<noteq> [] \<longrightarrow>
      buildArticleParams ps ''categoryIds'' = Some (join_comma (map String_id ids))"
    by (simp add: params_categoryIds)
  have a1: "p_page ps = None \<longrightarrow> buildArticleParams ps ''page'' = None"
    by (simp add: params_page)
  have a2: "p_limit ps = None \<longrightarrow> buildArticleParams ps ''limit'' = None"
    by (simp add: params_limit)
  have a3: "p_search ps = None \<longrightarrow> buildArticleParams ps ''search'' = None"
    by (simp add: params_search)
  have a4: "p_status ps = None \<longrightarrow> buildArticleParams ps ''status'' = None"
    by (simp add: params_status)
  have a5: "p_networkId ps = None \<longrightarrow> buildArticleParams ps ''networkId'' = None"
    by (simp add: params_networkId)
  have a6: "p_sortBy ps = None \<longrightarrow> buildArticleParams ps ''sortBy'' = None"
    by (simp add: params_sortBy)
  have a7: "p_sortDir ps = None \<longrightarrow> buildArticleParams ps ''sortDir'' = None"
    by (simp add: params_sortDir)
  have a8: "p_categoryIds ps = None \<longrightarrow> buildArticleParams ps ''categoryIds'' = None"
    by (simp add: params_categoryIds)
  from c1 c2 c3 c4 feat c5 c6 a1 a2 a3 a4 a5 a6 a7 a8 d show ?thesis
    by (intro conjI)
qed

text \<open>Scenario 1 and a fully populated query.\<close>

theorem buildArticleParams_omission_witness:
  "buildArticleParams scenario1 ''page'' = Some ''0'' \<and>
   buildArticleParams scenario1 ''search'' = None \<and>
   buildArticleParams scenario1 ''featured'' = None \<and>
   buildArticleParams scenario1 ''status'' = None \<and>
   buildArticleParams scenario1 ''sortBy'' = None \<and>
   buildArticleParams scenario1 ''sortDir'' = None \<and>
   buildArticleParams scenario1 ''categoryIds'' = None \<and>
   buildArticleParams scenario1 ''networkId'' = None \<and>
   buildArticleParams full_query ''networkId'' = Some ''0'' \<and>
   buildArticleParams full_query ''featured'' = Some ''true'' \<and>
   buildArticleParams full_query ''categoryIds'' = Some ''1,x,3''"
proof -
  have j: "join_comma (map String_id [Num 1, Str ''x'', Num 3]) = ''1,x,3''"
    by (simp add: String_num_def digits.simps digit_char_def)
  show ?thesis
    using buildArticleParams_omission [of scenario1] buildArticleParams_omission [of full_query] j
    by (simp add: scenario1_def full_query_def)
qed


subsection \<open>Association resolver\<close>

text \<open>
  C2. Category resolution precedence: a non-empty \<open>categoryIds\<close> list resolves through its
  first id, whatever the legacy scalar is; an absent or empty list falls back to the scalar
  \<open>categoryId\<close>; with neither there is no association; and an id that the lookup table
  does not hold gives \<open>null\<close> (the function has no failing branch).
\<close>

theorem resolveCategory_precedence:
  "(\<forall>x xs. categoryIds a = Some (x # xs) \<longrightarrow> resolveCategory a catMap = catMap (String_id x)) \<and>
   (\<forall>c. (categoryIds a = None \<or> categoryIds a = Some []) \<and> categoryId a = Some c \<longrightarrow>
        resolveCategory a catMap = catMap (String_id c)) \<and>
   ((categoryIds a = None \<or> categoryIds a = Some []) \<and> categoryId a = None \<longrightarrow>
        resolveCategory a catMap = None) \<and>
   (\<forall>x xs. categoryIds a = Some (x # xs) \<and> String_id x \<notin> dom catMap \<longrightarrow>
        resolveCategory a catMap = None) \<and>
   (\<forall>c. (categoryIds a = None \<or> categoryIds a = Some []) \<and> categoryId a = Some c \<and>
        String_id c \<notin> dom catMap \<longrightarrow> resolveCategory a catMap = None)"
  by (auto simp: resolveCategory_def)

lemma String_num_digit: "String_num 1 = ''1''" "String_num 2 = ''2''" "String_num 3 = ''3''"
  by (simp_all add: String_num_def digits.simps digit_char_def)

lemma catmap1: "buildCategoryMap [cat_politics] = [''1'' \<mapsto> cat_politics]"
  by (simp add: buildCategoryMap_def cat_politics_def String_num_digit)

theorem resolveCategory_precedence_witness:
  "resolveCategory (art ''draft'' (Some [Num 1, Num 3]) (Some (Num 2))) (buildCategoryMap [cat_politics])
     = Some cat_politics \<and>
   resolveCategory (art ''draft'' (Some []) (Some (Num 1))) (buildCategoryMap [cat_politics])
     = Some cat_politics \<and>
   resolveCategory (art ''draft'' None (Some (Num 1))) (buildCategoryMap [cat_politics])
     = Some cat_politics \<and>
   resolveCategory (art ''draft'' None None) (buildCategoryMap [cat_politics]) = None \<and>
   resolveCategory (art ''draft'' (Some [Num 3, Num 1]) (Some (Num 1))) (buildCategoryMap [cat_politics])
     = None \<and>
   resolveCategory (art ''draft'' (Some []) (Some (Num 2))) (buildCategoryMap [cat_politics]) = None"
  using resolveCategory_precedence [of "art ''draft'' (Some [Num 1, Num 3]) (Some (Num 2))" "buildCategoryMap [cat_politics]"]
    resolveCategory_precedence [of "art ''draft'' (Some []) (Some (Num 1))" "buildCategoryMap [cat_politics]"]
    resolveCategory_precedence [of "art ''draft'' None (Some (Num 1))" "buildCategoryMap [cat_politics]"]
    resolveCategory_precedence [of "art ''draft'' None None" "buildCategoryMap [cat_politics]"]
    resolveCategory_precedence [of "art ''draft'' (Some [Num 3, Num 1]) (Some (Num 1))" "buildCategoryMap [cat_politics]"]
    resolveCategory_precedence [of "art ''draft'' (Some []) (Some (Num 2))" "buildCategoryMap [cat_politics]"]
  by (simp add: art_def catmap1 String_num_digit)

subsection \<open>Status counts\<close>

lemma status_counts:
  "\<forall>a \<in> set articles. status a \<in> {''draft'', ''published'', ''archived''} \<Longrightarrow>
   length (filter (\<lambda>a. status a = ''published'') articles)
   + length (filter (\<lambda>a. status a = ''draft'') articles)
   + length (filter (\<lambda>a. status a = ''archived'') articles) = length articles"
  by (induction articles) auto

text \<open>
  C6. The total of the aggregate is the length of the collection, each of the counts
  published, draft, archived is the number of positions of the collection that hold an
  article of that status, and when every article's status is one of draft, published,
  archived, published + draft + archived = total = the length of the collection.
\<close>

theorem stats_partition:
  assumes "\<forall>a \<in> set articles. status a \<in> {''draft'', ''published'', ''archived''}"
  shows "s_total (stats articles categories) = length articles \<and>
         s_published (stats articles categories)
           = card {i. i < length articles \<and> status (articles ! i) = ''published''} \<and>
         s_draft (stats articles categories)
           = card {i. i < length articles \<and> status (articles ! i) = ''draft''} \<and>
         s_archived (stats articles categories)
           = card {i. i < length articles \<and> status (articles ! i) = ''archived''} \<and>
         s_published (stats articles categories) + s_draft (stats articles categories)
           + s_archived (stats articles categories) = s_total (stats articles categories) \<and>
         s_published (stats articles categories) + s_draft (stats articles categories)
           + s_archived (stats articles categories) = length articles"
proof -
  have t: "s_total (stats articles categories) = length articles"
    by (simp add: stats_def)
  have p: "s_published (stats articles categories)
           = card {i. i < length articles \<and> status (articles ! i) = ''published''}"
    by (simp add: stats_def length_filter_conv_card)
  have d: "s_draft (stats articles categories)
           = card {i. i < length articles \<and> status (articles ! i) = ''draft''}"
    by (simp add: stats_def length_filter_conv_card)
  have r: "s_archived (stats articles categories)
           = card {i. i < length articles \<and> status (articles ! i) = ''archived''}"
    by (simp add: stats_def length_filter_conv_card)
  have sum: "s_published (stats articles categories) + s_draft (stats articles categories)
           + s_archived (stats articles categories) = length articles"
    using status_counts [OF assms] by (simp add: stats_def)
  from sum t have sum': "s_published (stats articles categories) + s_draft (stats articles categories)
           + s_archived (stats articles categories) = s_total (stats articles categories)"
    by simp
  from t p d r sum' sum show ?thesis by (intro conjI)
qed

theorem stats_partition_witness:
  "set (map status four_articles) \<subseteq> {''draft'', ''published'', ''archived''} \<and>
   length four_articles = 4 \<and>
   s_total (stats four_articles []) = 4 \<and>
   s_published (stats four_articles []) = 2 \<and>
   s_draft (stats four_articles []) = 1 \<and>
   s_archived (stats four_articles []) = 1 \<and>
   s_published (stats four_articles []) + s_draft (stats four_articles [])
     + s_archived (stats four_articles []) = 4"
proof -
  have h: "\<forall>a \<in> set four_articles. status a \<in> {''draft'', ''published'', ''archived''}"
    by (simp add: four_articles_def art_def)
  have m: "set (map status four_articles) \<subseteq> {''draft'', ''published'', ''archived''}"
    by (simp add: four_articles_def art_def)
  have l: "length four_articles = 4"
    by (simp add: four_articles_def)
  have c: "s_published (stats four_articles []) = 2" "s_draft (stats four_articles []) = 1"
    "s_archived (stats four_articles []) = 1"
    by (simp_all add: stats_def four_articles_def art_def)
  from stats_partition [OF h, of "[]"] l
  have "s_total (stats four_articles []) = 4"
    and "s_published (stats four_articles []) + s_draft (stats four_articles [])
     + s_archived (stats four_articles []) = 4"
    by simp_all
  with m l c show ?thesis by simp
qed

subsection \<open>Response normalizer\<close>

lemma first_array_first:
  "i < length keys \<Longrightarrow> is_array (map_of obj (keys ! i)) \<Longrightarrow>
   \<forall>j<i. \<not> is_array (map_of obj (keys ! j)) \<Longrightarrow>
   map_of obj (keys ! i) = Some (JArr (case first_array obj keys of Some val \<Rightarrow> val | None \<Rightarrow> []))"
proof (induction keys arbitrary: i)
  case Nil
  then show ?case by simp
next
  case (Cons key keys)
  show ?case
  proof (cases i)
    case 0
    with Cons.prems show ?thesis by (auto simp: is_array_def split: option.splits json.splits)
  next
    case (Suc i')
    from Cons.prems(3) Suc have nk: "\<not> is_array (map_of obj key)" by auto
    have "\<forall>j<i'. \<not> is_array (map_of obj (keys ! j))"
      using Cons.prems(3) Suc by auto
    with Cons.IH [of i'] Cons.prems Suc
    have "map_of obj (keys ! i') = Some (JArr (case first_array obj keys of Some val \<Rightarrow> val | None \<Rightarrow> []))"
      by simp
    moreover have "first_array obj (key # keys) = first_array obj keys"
      using nk by (auto simp: is_array_def split: option.splits json.splits)
    ultimately show ?thesis using Suc by simp
  qed
qed

lemma first_array_none:
  "\<forall>k \<in> set keys. \<not> is_array (map_of obj k) \<Longrightarrow> first_array obj keys = None"
  by (induction keys) (auto simp: is_array_def split: option.splits json.splits)

text \<open>
  C8. The list-response normalizer: an array is returned as it is; for an object, the
  candidate keys data, items, results, articles, categories, notifications, networks are
  read in that order and the array under the first key that holds one is returned; when no
  candidate holds an array, and for every value that is neither array nor object, the
  result is the empty sequence. \<open>toArray\<close> is total: each shape of input has a result.
\<close>

theorem toArray_normalizes:
  "toArray (JArr xs) = xs \<and>
   (\<forall>i < length envelope_keys.
      is_array (map_of obj (envelope_keys ! i)) \<and>
      (\<forall>j<i. \<not> is_array (map_of obj (envelope_keys ! j))) \<longrightarrow>
      map_of obj (envelope_keys ! i) = Some (JArr (toArray (JObj obj)))) \<and>
   ((\<forall>k \<in> set envelope_keys. \<not> is_array (map_of obj k)) \<longrightarrow> toArray (JObj obj) = []) \<and>
   toArray JNull = [] \<and> toArray (JBool b) = [] \<and> toArray (JNum n) = [] \<and> toArray (JStr s) = [] \<and>
   envelope_keys = [''data'', ''items'', ''results'', ''articles'', ''categories'',
     ''notifications'', ''networks'']"
proof -
  have a: "\<forall>i < length envelope_keys.
      is_array (map_of obj (envelope_keys ! i)) \<and>
      (\<forall>j<i. \<not> is_array (map_of obj (envelope_keys ! j))) \<longrightarrow>
      map_of obj (envelope_keys ! i) = Some (JArr (toArray (JObj obj)))"
    using first_array_first [of _ envelope_keys obj] by simp
  have b: "(\<forall>k \<in> set envelope_keys. \<not> is_array (map_of obj k)) \<longrightarrow> toArray (JObj obj) = []"
    using first_array_none [of envelope_keys obj] by simp
  from a b show ?thesis by (simp add: envelope_keys_def)
qed

theorem toArray_normalizes_witness:
  "toArray enveloped = [JNum 1, JNum 2] \<and> toArray (JObj [(''total'', JNum 2)]) = []"
proof -
  have i: "(2::nat) < length envelope_keys" by (simp add: envelope_keys_def)
  have k: "envelope_keys ! 2 = ''results''" "envelope_keys ! Suc 0 = ''items''" "envelope_keys ! 0 = ''data''"
    by (simp_all add: envelope_keys_def)
  have h1: "is_array (map_of [(''total'', JNum 2), (''items'', JStr ''x''),
     (''articles'', JArr [JNum 7]), (''results'', JArr [JNum 1, JNum 2])] (envelope_keys ! 2))"
    by (simp add: k is_array_def)
  have h2: "\<forall>j<2. \<not> is_array (map_of [(''total'', JNum 2), (''items'', JStr ''x''),
     (''articles'', JArr [JNum 7]), (''results'', JArr [JNum 1, JNum 2])] (envelope_keys ! j))"
  proof (intro allI impI)
    fix j :: nat assume "j < 2"
    then have "j = 0 \<or> j = Suc 0" by arith
    then show "\<not> is_array (map_of [(''total'', JNum 2), (''items'', JStr ''x''),
     (''articles'', JArr [JNum 7]), (''results'', JArr [JNum 1, JNum 2])] (envelope_keys ! j))"
      by (auto simp: k is_array_def)
  qed
  have h3: "\<forall>k \<in> set envelope_keys. \<not> is_array (map_of [(''total'', JNum 2)] k)"
    by (simp add: envelope_keys_def is_array_def)
  from toArray_normalizes [of _ "[(''total'', JNum 2), (''items'', JStr ''x''),
     (''articles'', JArr [JNum 7]), (''results'', JArr [JNum 1, JNum 2])]"] i h1 h2
  have "map_of [(''total'', JNum 2), (''items'', JStr ''x''),
     (''articles'', JArr [JNum 7]), (''results'', JArr [JNum 1, JNum 2])] (envelope_keys ! 2)
     = Some (JArr (toArray enveloped))"
    unfolding enveloped_def by blast
  then have r1: "toArray enveloped = [JNum 1, JNum 2]" by (simp add: k)
  from toArray_normalizes [of _ "[(''total'', JNum 2)]"] h3
  have r2: "toArray (JObj [(''total'', JNum 2)]) = []" by blast
  from r1 r2 show ?thesis by simp
qed

subsection \<open>Error classification\<close>

text \<open>
  C9. A failed delete whose response status is 409: the error handed to the caller keeps
  the numeric status, and the message shown is the fixed "in use" message with severity
  warning. Every other failure shows the message of the classified error (the response's
  message, else the transport's, else the fallback "Une erreur est survenue") with severity
  error, so what is shown differs; the "in use" message is not the fallback message.
\<close>

theorem delete_conflict_message:
  "(\<forall>r. ae_response error = Some r \<longrightarrow> e_status (interceptor error) = Some (r_status r)) \<and>
   (\<forall>r. ae_response error = Some r \<and> r_status r = 409 \<longrightarrow>
      snack_bar (delete_failed error st) = Some \<lparr>msg = in_use_message, sev = ''warning''\<rparr>) \<and>
   ((\<forall>r. ae_response error = Some r \<longrightarrow> r_status r \<noteq> 409) \<longrightarrow>
      snack_bar (delete_failed error st) = Some \<lparr>msg = e_message (interceptor error), sev = ''error''\<rparr> \<and>
      snack_bar (delete_failed error st) \<noteq> Some \<lparr>msg = in_use_message, sev = ''warning''\<rparr>) \<and>
   ((\<forall>r. ae_response error = Some r \<longrightarrow> r_message r = None \<or> r_message r = Some []) \<and>
    (ae_message error = None \<or> ae_message error = Some []) \<longrightarrow>
      e_message (interceptor error) = ''Une erreur est survenue'') \<and>
   in_use_message \<noteq> ''Une erreur est survenue''"
proof -
  have a: "\<forall>r. ae_response error = Some r \<longrightarrow> e_status (interceptor error) = Some (r_status r)"
    by (simp add: interceptor_def Let_def)
  have b: "\<forall>r. ae_response error = Some r \<and> r_status r = 409 \<longrightarrow>
      snack_bar (delete_failed error st) = Some \<lparr>msg = in_use_message, sev = ''warning''\<rparr>"
    by (simp add: delete_failed_def deleteMut_onError_def interceptor_def Let_def)
  have c: "(\<forall>r. ae_response error = Some r \<longrightarrow> r_status r \<noteq> 409) \<longrightarrow>
      snack_bar (delete_failed error st) = Some \<lparr>msg = e_message (interceptor error), sev = ''error''\<rparr> \<and>
      snack_bar (delete_failed error st) \<noteq> Some \<lparr>msg = in_use_message, sev = ''warning''\<rparr>"
    by (cases "ae_response error") (simp_all add: delete_failed_def deleteMut_onError_def interceptor_def Let_def)
  have d: "(\<forall>r. ae_response error = Some r \<longrightarrow> r_message r = None \<or> r_message r = Some []) \<and>
    (ae_message error = None \<or> ae_message error = Some []) \<longrightarrow>
      e_message (interceptor error) = ''Une erreur est survenue''"
    by (cases "ae_response error") (auto simp: interceptor_def Let_def)
  have e: "in_use_message \<noteq> ''Une erreur est survenue''"
    by (simp add: in_use_message_def)
  from a b c d e show ?thesis by (intro conjI)
qed

theorem delete_conflict_message_witness:
  "e_status (interceptor conflict) = Some 409 \<and>
   snack_bar (delete_failed conflict idle) = Some \<lparr>msg = in_use_message, sev = ''warning''\<rparr> \<and>
   snack_bar (delete_failed server_error idle)
     = Some \<lparr>msg = ''Une erreur est survenue'', sev = ''error''\<rparr> \<and>
   snack_bar (delete_failed server_error idle) \<noteq> snack_bar (delete_failed conflict idle)"
  using delete_conflict_message [of conflict idle] delete_conflict_message [of server_error idle]
  by (simp add: conflict_def server_error_def)


subsection \<open>Category counts of the pie chart\<close>

lemma map_of_map_set:
  "map_of (map_set k v m) k' = (if k' = k then Some v else map_of m k')"
  by (induction m) auto

lemma count_increment:
  "count_of (increment k m) k' = count_of m k' + (if k' = k then 1 else 0)"
  by (simp add: count_of_def increment_def map_of_map_set)

lemma count_ids:
  "count_of (foldl (\<lambda>m cid. increment (String_id cid) m) m ids) k
   = count_of m k + length (filter (\<lambda>c. String_id c = k) ids)"
  by (induction ids arbitrary: m) (auto simp: count_increment)

lemma count_articles:
  "count_of (foldl (\<lambda>m a. foldl (\<lambda>m cid. increment (String_id cid) m) m (getArticleCategoryIds a)) m articles) k
   = count_of m k
     + sum_list (map (\<lambda>a. length (filter (\<lambda>c. String_id c = k) (getArticleCategoryIds a))) articles)"
  by (induction articles arbitrary: m) (auto simp: count_ids)

lemma count_of_Nil: "count_of [] k = 0"
  by (simp add: count_of_def)

lemma catCount_total:
  "count_of (catCountMap articles) k
   = sum_list (map (\<lambda>a. length (filter (\<lambda>c. String_id c = k) (getArticleCategoryIds a))) articles)"
  by (simp add: catCountMap_def count_articles count_of_Nil)

lemma catCount_insert:
  "count_of (catCountMap (xs @ a # ys)) k
   = count_of (catCountMap (xs @ ys)) k
     + length (filter (\<lambda>c. String_id c = k) (getArticleCategoryIds a))"
  by (simp add: catCount_total)

lemma count_of_entry: "0 < count_of m k \<Longrightarrow> (k, count_of m k) \<in> set m"
  by (auto simp: count_of_def split: option.splits dest: map_of_SomeD)

lemma set_insert_cmp: "set (insert_cmp cmp x ys) = insert x (set ys)"
  by (induction ys) auto

lemma set_sort_cmp: "set (sort_cmp cmp xs) = set xs"
  by (induction xs) (auto simp: sort_cmp_def set_insert_cmp)

lemma pieData_slice:
  assumes "(cid, c) \<in> set (catCountMap articles)" and "0 < c"
  shows "\<exists>d \<in> set (pieData articles categories). ps_value d = c \<and> ps_name d = slice_name categories cid"
proof -
  let ?entries = "catCountMap articles"
  from assms(1) obtain i where i: "i < length ?entries" "?entries ! i = (cid, c)"
    by (auto simp: in_set_conv_nth)
  then have z: "((cid, c), i) \<in> set (zip ?entries [0 ..< length ?entries])"
    by (auto simp: set_zip intro!: exI [of _ i])
  show ?thesis
    unfolding pieData_def Let_def set_sort_cmp
    using z assms(2)
    by (auto simp: slice_name_def intro!: bexI [of _ "((cid, c), i)"] split: option.splits) 
qed

text \<open>
  C3. An article whose resolved category-id list is \<open>[A, B]\<close>, two ids with different
  keys, adds exactly one unit to the count of A and one unit to the count of B in
  \<open>catCountMap\<close>, and leaves every other count as it is, wherever the article stands in the
  collection; the pie data holds a slice for A and a slice for B carrying these counts.
  (In general an article adds to a key the number of its ids with that key:
  \<open>catCount_insert\<close>.)
\<close>

theorem pie_multi_category_counting:
  assumes "getArticleCategoryIds a = [A, B]" and "String_id A \<noteq> String_id B"
  shows "count_of (catCountMap (xs @ a # ys)) (String_id A)
           = count_of (catCountMap (xs @ ys)) (String_id A) + 1 \<and>
         count_of (catCountMap (xs @ a # ys)) (String_id B)
           = count_of (catCountMap (xs @ ys)) (String_id B) + 1 \<and>
         (\<forall>k. k \<noteq> String_id A \<and> k \<noteq> String_id B \<longrightarrow>
            count_of (catCountMap (xs @ a # ys)) k = count_of (catCountMap (xs @ ys)) k) \<and>
         (\<exists>d \<in> set (pieData (xs @ a # ys) categories).
            ps_name d = slice_name categories (String_id A) \<and>
            ps_value d = count_of (catCountMap (xs @ a # ys)) (String_id A)) \<and>
         (\<exists>d \<in> set (pieData (xs @ a # ys) categories).
            ps_name d = slice_name categories (String_id B) \<and>
            ps_value d = count_of (catCountMap (xs @ a # ys)) (String_id B))"
proof -
  let ?m = "catCountMap (xs @ a # ys)"
  have cA: "count_of ?m (String_id A) = count_of (catCountMap (xs @ ys)) (String_id A) + 1"
    using assms by (simp add: catCount_insert)
  have cB: "count_of ?m (String_id B) = count_of (catCountMap (xs @ ys)) (String_id B) + 1"
    using assms by (simp add: catCount_insert)
  have cK: "\<forall>k. k \<noteq> String_id A \<and> k \<noteq> String_id B \<longrightarrow>
            count_of ?m k = count_of (catCountMap (xs @ ys)) k"
    using assms by (auto simp: catCount_insert)
  from cA have posA: "0 < count_of ?m (String_id A)" by simp
  from pieData_slice [OF count_of_entry [OF posA] posA, of categories]
  have pA: "\<exists>d \<in> set (pieData (xs @ a # ys) categories).
            ps_name d = slice_name categories (String_id A) \<and>
            ps_value d = count_of ?m (String_id A)" by blast
  from cB have posB: "0 < count_of ?m (String_id B)" by simp
  from pieData_slice [OF count_of_entry [OF posB] posB, of categories]
  have pB: "\<exists>d \<in> set (pieData (xs @ a # ys) categories).
            ps_name d = slice_name categories (String_id B) \<and>
            ps_value d = count_of ?m (String_id B)" by blast
  from cA cB cK pA pB show ?thesis by (intro conjI)
qed


theorem pie_multi_category_counting_witness:
  "getArticleCategoryIds (art ''draft'' (Some [Num 1, Num 3]) None) = [Num 1, Num 3] \<and>
   String_id (Num 1) \<noteq> String_id (Num 3) \<and>
   count_of (catCountMap ([art ''draft'' (Some [Num 1]) None] @ art ''draft'' (Some [Num 1, Num 3]) None # []))
     ''1'' = 2 \<and>
   count_of (catCountMap ([art ''draft'' (Some [Num 1]) None] @ art ''draft'' (Some [Num 1, Num 3]) None # []))
     ''3'' = 1"
proof -
  have h1: "getArticleCategoryIds (art ''draft'' (Some [Num 1, Num 3]) None) = [Num 1, Num 3]"
    by (simp add: getArticleCategoryIds_def art_def)
  have h2: "String_id (Num 1) \<noteq> String_id (Num 3)"
    by (simp add: String_num_digit)
  have b: "catCountMap ([art ''draft'' (Some [Num 1]) None] @ []) = [(''1'', 1)]"
    by (simp add: catCountMap_def getArticleCategoryIds_def art_def increment_def String_num_digit)
  from pie_multi_category_counting [OF h1 h2, of "[art ''draft'' (Some [Num 1]) None]" "[]" "[]"] h1 h2 b
  show ?thesis by (simp add: count_of_def String_num_digit)
qed

text \<open>
  C10. For an article whose \<open>categoryIds\<close> is absent or empty and whose scalar
  \<open>categoryId\<close> is the number 0, the two call sites disagree: the category cell of the
  articles table (truthiness test on the scalar) resolves no category, whatever the
  lookup table holds, while \<open>getArticleCategoryIds\<close> (test \<open>!= null\<close>) returns \<open>[0]\<close>
  and the article is counted under the key "0" in the pie data.
\<close>

theorem scalar_zero_divergence:
  assumes "categoryIds a = None \<or> categoryIds a = Some []" and "categoryId a = Some (Num 0)"
  shows "row_firstId a = None \<and> row_category a categoryMap = None \<and>
         getArticleCategoryIds a = [Num 0] \<and>
         count_of (catCountMap (xs @ a # ys)) ''0'' = count_of (catCountMap (xs @ ys)) ''0'' + 1 \<and>
         (\<exists>d \<in> set (pieData (xs @ a # ys) categories).
            ps_name d = slice_name categories ''0'' \<and>
            ps_value d = count_of (catCountMap (xs @ a # ys)) ''0'')"
proof -
  let ?m = "catCountMap (xs @ a # ys)"
  have f: "row_firstId a = None"
    using assms by (auto simp: row_firstId_def)
  then have r: "row_category a categoryMap = None"
    by (simp add: row_category_def)
  have g: "getArticleCategoryIds a = [Num 0]"
    using assms by (auto simp: getArticleCategoryIds_def)
  have z: "String_id (Num 0) = ''0''"
    by (simp add: String_num_def digits.simps digit_char_def)
  have c: "count_of ?m ''0'' = count_of (catCountMap (xs @ ys)) ''0'' + 1"
    using g z by (simp add: catCount_insert)
  then have pos: "0 < count_of ?m ''0''" by simp
  from pieData_slice [OF count_of_entry [OF pos] pos, of categories]
  have p: "\<exists>d \<in> set (pieData (xs @ a # ys) categories).
            ps_name d = slice_name categories ''0'' \<and> ps_value d = count_of ?m ''0''" by blast
  from f r g c p show ?thesis by (intro conjI)
qed

theorem scalar_zero_divergence_witness:
  "row_category (art ''draft'' (Some []) (Some (Num 0))) (buildCategoryMap [cat_zero]) = None \<and>
   getArticleCategoryIds (art ''draft'' (Some []) (Some (Num 0))) = [Num 0] \<and>
   count_of (catCountMap ([] @ art ''draft'' (Some []) (Some (Num 0)) # [])) ''0'' = 1 \<and>
   resolveCategory (art ''draft'' (Some []) (Some (Num 0))) (buildCategoryMap [cat_zero]) = Some cat_zero"
proof -
  have h1: "categoryIds (art ''draft'' (Some []) (Some (Num 0))) = None \<or>
            categoryIds (art ''draft'' (Some []) (Some (Num 0))) = Some []"
    by (simp add: art_def)
  have h2: "categoryId (art ''draft'' (Some []) (Some (Num 0))) = Some (Num 0)"
    by (simp add: art_def)
  have b: "catCountMap ([] @ []) = []"
    by (simp add: catCountMap_def)
  have z: "String_num 0 = ''0''"
    by (simp add: String_num_def digits.simps digit_char_def)
  have r: "resolveCategory (art ''draft'' (Some []) (Some (Num 0))) (buildCategoryMap [cat_zero]) = Some cat_zero"
    by (simp add: resolveCategory_def art_def buildCategoryMap_def cat_zero_def z)
  from scalar_zero_divergence [OF h1 h2, of "buildCategoryMap [cat_zero]" "[]" "[]" "[]"] b r
  show ?thesis by (simp add: count_of_def)
qed


subsection \<open>Search filter\<close>

lemma startsWith_iff: "startsWith s q \<longleftrightarrow> (\<exists>post. s = q @ post)"
  by (induction s q rule: startsWith.induct) auto

lemma includes_str_iff: "includes_str s q \<longleftrightarrow> (\<exists>pre post. s = pre @ q @ post)"
proof (induction s)
  case Nil
  then show ?case by auto
next
  case (Cons c s)
  show ?case
  proof
    assume "includes_str (c # s) q"
    then consider "startsWith (c # s) q" | "includes_str s q" by auto
    then show "\<exists>pre post. c # s = pre @ q @ post"
    proof cases
      case 1
      then obtain post where "c # s = q @ post" by (auto simp: startsWith_iff)
      then have "c # s = [] @ q @ post" by simp
      then show ?thesis by blast
    next
      case 2
      with Cons.IH obtain pre post where "s = pre @ q @ post" by blast
      then have "c # s = (c # pre) @ q @ post" by simp
      then show ?thesis by blast
    qed
  next
    assume "\<exists>pre post. c # s = pre @ q @ post"
    then obtain pre post where e: "c # s = pre @ q @ post" by blast
    show "includes_str (c # s) q"
    proof (cases pre)
      case Nil
      with e have "startsWith (c # s) q" by (auto simp: startsWith_iff)
      then show ?thesis by simp
    next
      case (Cons p pre')
      with e have "s = pre' @ q @ post" by simp
      with Cons.IH have "includes_str s q" by blast
      then show ?thesis by simp
    qed
  qed
qed

lemma includes_lower_iff:
  "includes_str (toLowerCase s) (toLowerCase q) \<longleftrightarrow> ci_contains s q"
proof
  assume "includes_str (toLowerCase s) (toLowerCase q)"
  then obtain pre' post' where "map toLowerCase_unit s = pre' @ map toLowerCase_unit q @ post'"
    by (auto simp: includes_str_iff toLowerCase_def)
  then have "\<exists>pre rest. s = pre @ rest \<and> pre' = map toLowerCase_unit pre \<and>
             map toLowerCase_unit q @ post' = map toLowerCase_unit rest"
    by (simp only: map_eq_append_conv)
  then obtain pre rest where s: "s = pre @ rest"
      and rest: "map toLowerCase_unit rest = map toLowerCase_unit q @ post'"
    by auto
  from rest have "\<exists>mid post. rest = mid @ post \<and> map toLowerCase_unit q = map toLowerCase_unit mid \<and>
             post' = map toLowerCase_unit post"
    by (simp only: map_eq_append_conv)
  then obtain mid post where "rest = mid @ post"
      and "map toLowerCase_unit mid = map toLowerCase_unit q"
    by auto
  with s show "ci_contains s q"
    unfolding ci_contains_def toLowerCase_def by blast
next
  assume "ci_contains s q"
  then obtain pre mid post where "s = pre @ mid @ post" "toLowerCase mid = toLowerCase q"
    by (auto simp: ci_contains_def)
  then have "toLowerCase s = toLowerCase pre @ toLowerCase q @ toLowerCase post"
    by (simp add: toLowerCase_def)
  then show "includes_str (toLowerCase s) (toLowerCase q)"
    unfolding includes_str_iff by blast
qed

text \<open>
  The search step of the page with the full filter set, and of \<open>filterArticles\<close>: an absent
  or empty search text keeps the list; a non-empty one keeps exactly the articles whose
  title or content contains it, letter case disregarded.
\<close>

lemma search_step_spec:
  "search_step None list = list \<and> search_step (Some []) list = list \<and>
   (s \<noteq> [] \<longrightarrow> search_step (Some s) list
      = filter (\<lambda>a. ci_contains (title a) s \<or> (\<exists>c. content a = Some c \<and> ci_contains c s)) list)"
proof -
  have "(case content a of Some c \<Rightarrow> includes_str (toLowerCase c) (toLowerCase s) | None \<Rightarrow> False)
        = (\<exists>c. content a = Some c \<and> ci_contains c s)" for a :: article
    by (cases "content a") (simp_all add: includes_lower_iff)
  then show ?thesis
    by (simp add: search_step_def Let_def includes_lower_iff)
qed

lemma tech_lower:
  "toLowerCase ''AI breakthroughs'' = ''ai breakthroughs''"
  "toLowerCase ''Tech innovation'' = ''tech innovation''"
  "toLowerCase ''New AI breakthroughs announced'' = ''new ai breakthroughs announced''"
  by code_simp+

text \<open>
  C4. The search filter keeps exactly the articles whose title or content contains the
  search text, letter case disregarded. The filter of the page variant in services/api.ts
  reads the title only: for the search text "AI breakthroughs" it drops the fixture article
  whose content contains the text, which the search step above keeps.
\<close>

theorem filtered_simple_misses_content:
  "ci_contains ''New AI breakthroughs announced'' ''AI breakthroughs'' \<and>
   content tech_article = Some ''New AI breakthroughs announced'' \<and>
   filtered_simple [tech_article] ''AI breakthroughs'' ''all'' = [] \<and>
   search_step (Some ''AI breakthroughs'') [tech_article] = [tech_article]"
proof -
  have a: "includes_str ''new ai breakthroughs announced'' ''ai breakthroughs''"
    by simp
  have b: "\<not> includes_str ''tech innovation'' ''ai breakthroughs''"
    by simp
  from a have c: "ci_contains ''New AI breakthroughs announced'' ''AI breakthroughs''"
    using includes_lower_iff [of "''New AI breakthroughs announced''" "''AI breakthroughs''"]
    by (simp add: tech_lower)
  from a b c show ?thesis
    by (simp add: filtered_simple_def search_step_def tech_article_def tech_lower)
qed


subsection \<open>Sorting with a comparator\<close>

lemma length_insert_cmp: "length (insert_cmp cmp x ys) = Suc (length ys)"
  by (induction ys) auto

lemma length_sort_cmp: "length (sort_cmp cmp xs) = length xs"
  by (induction xs) (auto simp: sort_cmp_def length_insert_cmp)

lemma sort_cmp_Cons: "sort_cmp cmp (x # xs) = insert_cmp cmp x (sort_cmp cmp xs)"
  by (simp add: sort_cmp_def)

lemma sorted_insert_cmp:
  assumes tot: "\<And>a b. a \<in> S \<Longrightarrow> b \<in> S \<Longrightarrow> cmp a b \<le> 0 \<or> cmp b a \<le> 0"
    and tr: "\<And>a b c. a \<in> S \<Longrightarrow> b \<in> S \<Longrightarrow> c \<in> S \<Longrightarrow> cmp a b \<le> 0 \<Longrightarrow> cmp b c \<le> 0 \<Longrightarrow> cmp a c \<le> 0"
    and x: "x \<in> S"
  shows "set ys \<subseteq> S \<Longrightarrow> sorted_wrt (\<lambda>a b. cmp a b \<le> 0) ys \<Longrightarrow>
         sorted_wrt (\<lambda>a b. cmp a b \<le> 0) (insert_cmp cmp x ys)"
proof (induction ys)
  case Nil
  then show ?case by simp
next
  case (Cons y ys)
  from Cons.prems have y: "y \<in> S" and ys: "set ys \<subseteq> S"
    and yz: "\<forall>z \<in> set ys. cmp y z \<le> 0" and s: "sorted_wrt (\<lambda>a b. cmp a b \<le> 0) ys"
    by simp_all
  show ?case
  proof (cases "cmp x y \<le> 0")
    case True
    have "\<forall>z \<in> set ys. cmp x z \<le> 0"
    proof
      fix z assume z: "z \<in> set ys"
      with ys have "z \<in> S" by blast
      from tr [OF x y this True] yz z show "cmp x z \<le> 0" by blast
    qed
    with True yz s show ?thesis by simp
  next
    case False
    with tot [OF x y] have yx: "cmp y x \<le> 0" by blast
    from Cons.IH [OF ys s] have "sorted_wrt (\<lambda>a b. cmp a b \<le> 0) (insert_cmp cmp x ys)" .
    moreover from yz yx have "\<forall>z \<in> set (insert_cmp cmp x ys). cmp y z \<le> 0"
      by (simp add: set_insert_cmp)
    ultimately show ?thesis using False by simp
  qed
qed

lemma sorted_sort_cmp:
  assumes tot: "\<And>a b. a \<in> S \<Longrightarrow> b \<in> S \<Longrightarrow> cmp a b \<le> 0 \<or> cmp b a \<le> 0"
    and tr: "\<And>a b c. a \<in> S \<Longrightarrow> b \<in> S \<Longrightarrow> c \<in> S \<Longrightarrow> cmp a b \<le> 0 \<Longrightarrow> cmp b c \<le> 0 \<Longrightarrow> cmp a c \<le> 0"
  shows "set xs \<subseteq> S \<Longrightarrow> sorted_wrt (\<lambda>a b. cmp a b \<le> 0) (sort_cmp cmp xs)"
proof (induction xs)
  case Nil
  then show ?case by (simp add: sort_cmp_def)
next
  case (Cons x xs)
  from Cons.prems have x: "x \<in> S" and xs: "set xs \<subseteq> S" by simp_all
  from xs have sub: "set (sort_cmp cmp xs) \<subseteq> S" by (simp add: set_sort_cmp)
  from sorted_insert_cmp [of S cmp x "sort_cmp cmp xs", OF tot tr x sub Cons.IH [OF xs]]
  show ?case by (simp add: sort_cmp_Cons)
qed

subsection \<open>Articles by network\<close>

lemma keys_map_set: "map fst (map_set k v m) = (if k \<in> fst ` set m then map fst m else map fst m @ [k])"
proof (induction m)
  case Nil
  then show ?case by simp
next
  case (Cons e m)
  obtain k' v' where e: "e = (k', v')" by (cases e)
  show ?case
  proof (cases "k' = k")
    case True
    with e show ?thesis by simp
  next
    case False
    with e Cons.IH show ?thesis by (cases "k \<in> fst ` set m") simp_all
  qed
qed

lemma distinct_increment: "distinct (map fst m) \<Longrightarrow> distinct (map fst (increment k m))"
  by (auto simp: increment_def keys_map_set)

lemma distinct_networkMap_fold:
  "distinct (map fst m) \<Longrightarrow>
   distinct (map fst (foldl (\<lambda>m a. case network_name a of
                    Some name \<Rightarrow> if name \<noteq> [] then increment name m else m
                  | None \<Rightarrow> m) m articles))"
  by (induction articles arbitrary: m) (auto simp: distinct_increment split: option.splits)

lemma count_networkMap_fold:
  "count_of (foldl (\<lambda>m a. case network_name a of
                    Some name \<Rightarrow> if name \<noteq> [] then increment name m else m
                  | None \<Rightarrow> m) m articles) l
   = count_of m l + length (filter (\<lambda>a. network_name a = Some l \<and> l \<noteq> []) articles)"
  by (induction articles arbitrary: m) (auto simp: count_increment split: option.splits)

lemma networkMap_skip:
  "network_name a = None \<Longrightarrow> networkMap (xs @ a # ys) = networkMap (xs @ ys)"
  by (simp add: networkMap_def)

lemma byNetwork_sorted: "sorted_wrt (\<lambda>x y. snd y \<le> snd x) (byNetwork articles)"
proof -
  have "sorted_wrt (\<lambda>a b. int (snd b) - int (snd a) \<le> 0)
          (sort_cmp (\<lambda>a b. int (snd b) - int (snd a)) (networkMap articles))"
    by (rule sorted_sort_cmp [of UNIV]) auto
  then have "sorted_wrt (\<lambda>x y. snd y \<le> snd x)
          (sort_cmp (\<lambda>a b. int (snd b) - int (snd a)) (networkMap articles))"
    by simp
  then show ?thesis
    unfolding byNetwork_def by (rule sorted_wrt_take)
qed

lemma byNetwork_top:
  assumes "e \<in> set (networkMap articles) - set (byNetwork articles)" and "t \<in> set (byNetwork articles)"
  shows "snd e \<le> snd t"
proof -
  let ?s = "sort_cmp (\<lambda>a b. int (snd b) - int (snd a)) (networkMap articles)"
  have "sorted_wrt (\<lambda>a b. int (snd b) - int (snd a) \<le> 0) ?s"
    by (rule sorted_sort_cmp [of UNIV]) auto
  then have "sorted_wrt (\<lambda>x y. snd y \<le> snd x) (take 5 ?s @ drop 5 ?s)" by simp
  then have *: "\<forall>x \<in> set (take 5 ?s). \<forall>y \<in> set (drop 5 ?s). snd y \<le> snd x"
    unfolding sorted_wrt_append by blast
  have "set ?s = set (take 5 ?s) \<union> set (drop 5 ?s)"
    by (metis append_take_drop_id set_append)
  with assms(1) have "e \<in> set (drop 5 ?s)"
    by (auto simp: byNetwork_def set_sort_cmp)
  with * assms(2) show ?thesis by (auto simp: byNetwork_def)
qed

text \<open>
  C5, as amended. An article with no network object and a truthy network id (not 0, not
  the empty string) has the group name "R\<dots>seau #" followed by the id, the second letter
  being e acute (code unit 0xE9): for the id 99 the label is "R\<dots>seau #99", not
  "Network #99". An article with neither network object nor network id has no group and
  leaves the aggregate as it is. The count of a label is the number of articles with that
  group name, each label occurs once, the groups of \<open>byNetwork\<close> are in descending order
  of count, there are at most five of them, and no group left out has a larger count than
  a group kept.
\<close>

theorem byNetwork_grouping:
  "(\<forall>i. network a = None \<and> networkId a = Some i \<and> truthy i \<longrightarrow>
      network_name a = Some (network_prefix @ String_id i)) \<and>
   (network a = None \<and> networkId a = None \<longrightarrow>
      network_name a = None \<and> networkMap (xs @ a # ys) = networkMap (xs @ ys)) \<and>
   (\<forall>l. l \<noteq> [] \<longrightarrow>
      count_of (networkMap articles) l = length (filter (\<lambda>a. network_name a = Some l) articles)) \<and>
   distinct (map fst (networkMap articles)) \<and>
   sorted_wrt (\<lambda>x y. snd y \<le> snd x) (byNetwork articles) \<and>
   length (byNetwork articles) = min 5 (length (networkMap articles)) \<and>
   set (byNetwork articles) \<subseteq> set (networkMap articles) \<and>
   (\<forall>e \<in> set (networkMap articles) - set (byNetwork articles).
      \<forall>t \<in> set (byNetwork articles). snd e \<le> snd t) \<and>
   network_prefix = ''R'' @ [CHR 0xE9] @ ''seau #''"
proof -
  have a: "\<forall>i. network a = None \<and> networkId a = Some i \<and> truthy i \<longrightarrow>
      network_name a = Some (network_prefix @ String_id i)"
    by (simp add: network_name_def)
  have b: "network a = None \<and> networkId a = None \<longrightarrow>
      network_name a = None \<and> networkMap (xs @ a # ys) = networkMap (xs @ ys)"
    by (simp add: network_name_def networkMap_skip)
  have c: "\<forall>l. l \<noteq> [] \<longrightarrow>
      count_of (networkMap articles) l = length (filter (\<lambda>a. network_name a = Some l) articles)"
    by (simp add: networkMap_def count_networkMap_fold count_of_Nil)
  have d: "distinct (map fst (networkMap articles))"
    unfolding networkMap_def by (rule distinct_networkMap_fold) simp
  have e: "length (byNetwork articles) = min 5 (length (networkMap articles))"
    by (simp add: byNetwork_def length_sort_cmp)
  have f: "set (byNetwork articles) \<subseteq> set (networkMap articles)"
  proof -
    have "set (take 5 (sort_cmp (\<lambda>a b. int (snd b) - int (snd a)) (networkMap articles)))
          \<subseteq> set (sort_cmp (\<lambda>a b. int (snd b) - int (snd a)) (networkMap articles))"
      by (rule set_take_subset)
    then show ?thesis by (simp only: byNetwork_def set_sort_cmp)
  qed
  have g: "\<forall>e \<in> set (networkMap articles) - set (byNetwork articles).
      \<forall>t \<in> set (byNetwork articles). snd e \<le> snd t"
    using byNetwork_top by blast
  have h: "network_prefix = ''R'' @ [CHR 0xE9] @ ''seau #''"
    by (simp add: network_prefix_def)
  from a b c d byNetwork_sorted e f g h show ?thesis by (intro conjI)
qed

lemma String_num_99: "String_num 99 = ''99''"
  by code_simp

lemma byNetwork_net99: "byNetwork [net99_article] = [(''R'' @ [CHR 0xE9] @ ''seau #99'', 1)]"
  by (simp add: byNetwork_def networkMap_def network_name_def net99_article_def increment_def
      sort_cmp_def network_prefix_def String_num_99)

theorem byNetwork_grouping_witness:
  "network_name net99_article = Some (''R'' @ [CHR 0xE9] @ ''seau #99'') \<and>
   count_of (networkMap [net99_article]) (''R'' @ [CHR 0xE9] @ ''seau #99'') = 1 \<and>
   networkMap ([net99_article] @ art ''draft'' None None # []) = networkMap ([net99_article] @ []) \<and>
   byNetwork [net99_article] = [(''R'' @ [CHR 0xE9] @ ''seau #99'', 1)]"
proof -
  have n: "network net99_article = None \<and> networkId net99_article = Some (Num 99) \<and> truthy (Num 99)"
    by (simp add: net99_article_def)
  have m: "network (art ''draft'' None None) = None \<and> networkId (art ''draft'' None None) = None"
    by (simp add: art_def)
  have l: "''R'' @ [CHR 0xE9] @ ''seau #99'' \<noteq> []" by simp
  from byNetwork_grouping [of net99_article "[]" "[]" "[net99_article]"] n l
  have 1: "network_name net99_article = Some (''R'' @ [CHR 0xE9] @ ''seau #99'')"
    and 2: "count_of (networkMap [net99_article]) (''R'' @ [CHR 0xE9] @ ''seau #99'')
       = length (filter (\<lambda>a. network_name a = Some (''R'' @ [CHR 0xE9] @ ''seau #99'')) [net99_article])"
    by (simp_all add: String_num_99)
  from byNetwork_grouping [of "art ''draft'' None None" "[net99_article]" "[]" "[]"] m
  have 3: "networkMap ([net99_article] @ art ''draft'' None None # []) = networkMap ([net99_article] @ [])"
    by blast
  from 1 2 3 byNetwork_net99 show ?thesis by simp
qed

text \<open>
  C5 as stated fails: the article with network id 99 and no network object is grouped
  under "R\<dots>seau #99", and no group is labelled "Network #99".
\<close>

theorem byNetwork_label_counterexample:
  "map fst (byNetwork [net99_article]) = [''R'' @ [CHR 0xE9] @ ''seau #99''] \<and>
   map fst (byNetwork [net99_article]) \<noteq> [''Network #99'']"
  by (simp add: byNetwork_net99)


subsection \<open>Sort direction\<close>

lemma distinct_insert_cmp: "distinct (insert_cmp cmp x ys) = (x \<notin> set ys \<and> distinct ys)"
  by (induction ys) (auto simp: set_insert_cmp)

lemma distinct_sort_cmp: "distinct (sort_cmp cmp xs) = distinct xs"
  by (induction xs) (simp_all add: sort_cmp_def distinct_insert_cmp set_sort_cmp [unfolded sort_cmp_def])

lemma sorted_wrt_strengthen:
  "sorted_wrt P xs \<Longrightarrow> distinct xs \<Longrightarrow>
   (\<And>x y. x \<in> set xs \<Longrightarrow> y \<in> set xs \<Longrightarrow> x \<noteq> y \<Longrightarrow> P x y \<Longrightarrow> Q x y) \<Longrightarrow> sorted_wrt Q xs"
proof (induction xs)
  case Nil
  then show ?case by simp
next
  case (Cons x xs)
  from Cons.prems have "sorted_wrt Q xs"
    by (intro Cons.IH) simp_all
  moreover have "\<forall>y \<in> set xs. Q x y"
  proof
    fix y assume y: "y \<in> set xs"
    with Cons.prems(1,2) have "P x y" "x \<noteq> y" by auto
    with Cons.prems(3) [of x y] y show "Q x y" by simp
  qed
  ultimately show ?case by simp
qed

lemma sorted_wrt_unique:
  assumes asym: "\<And>x y. x \<in> set xs \<Longrightarrow> y \<in> set xs \<Longrightarrow> P x y \<Longrightarrow> \<not> P y x"
  shows "sorted_wrt P xs \<Longrightarrow> sorted_wrt P ys \<Longrightarrow> distinct xs \<Longrightarrow> distinct ys \<Longrightarrow>
         set xs = set ys \<Longrightarrow> xs = ys"
  using asym
proof (induction xs arbitrary: ys)
  case Nil
  then show ?case by simp
next
  case (Cons x xs)
  from Cons.prems(5) obtain y ys' where ys: "ys = y # ys'" by (cases ys) auto
  have xy: "x = y"
  proof (rule ccontr)
    assume ne: "x \<noteq> y"
    with Cons.prems(5) ys have "x \<in> set ys'" "y \<in> set xs" by auto
    with Cons.prems(1,2) ys have "P y x" "P x y" by auto
    moreover have "y \<in> set (x # xs)" using \<open>y \<in> set xs\<close> by simp
    ultimately show False using Cons.prems(6) [of x y] by simp
  qed
  from Cons.prems(3,4,5) ys xy have sets: "set xs = set ys'" by auto
  have "xs = ys'"
  proof (rule Cons.IH)
    show "sorted_wrt P xs" using Cons.prems(1) by simp
    show "sorted_wrt P ys'" using Cons.prems(2) ys by simp
    show "distinct xs" using Cons.prems(3) by simp
    show "distinct ys'" using Cons.prems(4) ys by simp
    show "set xs = set ys'" by (rule sets)
    show "\<And>a b. a \<in> set xs \<Longrightarrow> b \<in> set xs \<Longrightarrow> P a b \<Longrightarrow> \<not> P b a"
      using Cons.prems(6) by simp
  qed
  with ys xy show ?case by simp
qed

lemma comparator_simps:
  "comparator lc col Asc a b = lc (sortKey col a) (sortKey col b)"
  "comparator lc col Desc a b = lc (sortKey col b) (sortKey col a)"
  by (simp_all add: comparator_def Let_def)

lemma lc_refl:
  assumes "consistent_on lc K" and "x \<in> K"
  shows "lc x x = 0"
proof -
  from assms have "(lc x x < 0) = (0 < lc x x)" unfolding consistent_on_def by blast
  then show ?thesis by linarith
qed

lemma lc_sym:
  assumes "consistent_on lc K" and "x \<in> K" and "y \<in> K" and "lc x y = 0"
  shows "lc y x = 0"
proof -
  from assms(1,2,3) have "(lc x y < 0) = (0 < lc y x)" "(lc y x < 0) = (0 < lc x y)"
    unfolding consistent_on_def by blast+
  with assms(4) show ?thesis by linarith
qed

lemma no_ties_separates:
  assumes c: "consistent_on lc (sortKey col ` S)"
  shows "set xs \<subseteq> S \<Longrightarrow> no_ties lc col xs \<Longrightarrow>
         distinct xs \<and> (\<forall>a \<in> set xs. \<forall>b \<in> set xs. a \<noteq> b \<longrightarrow> lc (sortKey col a) (sortKey col b) \<noteq> 0)"
proof (induction xs)
  case Nil
  then show ?case by simp
next
  case (Cons x xs)
  let ?k = "sortKey col"
  from Cons.prems have x: "x \<in> S" and xs: "set xs \<subseteq> S"
    and later: "\<forall>b \<in> set xs. lc (?k x) (?k b) \<noteq> 0" and rest: "no_ties lc col xs"
    by simp_all
  from Cons.IH [OF xs rest] have dxs: "distinct xs"
    and sxs: "\<forall>a \<in> set xs. \<forall>b \<in> set xs. a \<noteq> b \<longrightarrow> lc (?k a) (?k b) \<noteq> 0"
    by blast+
  have xk: "?k x \<in> ?k ` S" using x by blast
  have nx: "x \<notin> set xs"
  proof
    assume "x \<in> set xs"
    with later have "lc (?k x) (?k x) \<noteq> 0" by blast
    with lc_refl [OF c xk] show False by simp
  qed
  have sep: "lc (?k a) (?k b) \<noteq> 0" if "a \<in> set (x # xs)" "b \<in> set (x # xs)" "a \<noteq> b" for a b
  proof (cases "a = x")
    case True
    with that have "b \<in> set xs" by auto
    with later True show ?thesis by blast
  next
    case False
    with that(1) have a: "a \<in> set xs" by simp
    show ?thesis
    proof (cases "b = x")
      case True
      show ?thesis
      proof
        assume z: "lc (?k a) (?k b) = 0"
        have "?k a \<in> ?k ` S" using a xs by blast
        from lc_sym [OF c this xk] z True have "lc (?k x) (?k a) = 0" by simp
        with later a show False by blast
      qed
    next
      case False
      with that(2) have "b \<in> set xs" by simp
      with sxs a that(3) show ?thesis by blast
    qed
  qed
  from nx dxs have "distinct (x # xs)" by simp
  moreover from sep have "\<forall>a \<in> set (x # xs). \<forall>b \<in> set (x # xs). a \<noteq> b \<longrightarrow> lc (?k a) (?k b) \<noteq> 0"
    by blast
  ultimately show ?case by blast
qed

lemma sort_asc_sorted:
  assumes c: "consistent_on lc (sortKey col ` set xs)"
  shows "sorted_wrt (\<lambda>a b. lc (sortKey col a) (sortKey col b) \<le> 0)
           (sort_cmp (comparator lc col Asc) xs)"
proof -
  let ?k = "sortKey col"
  have flip: "(lc (?k x) (?k y) < 0) = (0 < lc (?k y) (?k x))" if "x \<in> set xs" "y \<in> set xs" for x y
    using c that unfolding consistent_on_def by blast
  have tr: "lc (?k x) (?k z) \<le> 0"
    if "x \<in> set xs" "y \<in> set xs" "z \<in> set xs" "lc (?k x) (?k y) \<le> 0" "lc (?k y) (?k z) \<le> 0" for x y z
  proof -
    from c have "\<forall>u \<in> ?k ` set xs. \<forall>v \<in> ?k ` set xs. \<forall>w \<in> ?k ` set xs.
                   lc u v \<le> 0 \<and> lc v w \<le> 0 \<longrightarrow> lc u w \<le> 0"
      unfolding consistent_on_def by blast
    with that show ?thesis by blast
  qed
  have tot: "lc (?k x) (?k y) \<le> 0 \<or> lc (?k y) (?k x) \<le> 0" if "x \<in> set xs" "y \<in> set xs" for x y
    using flip [OF that(2) that(1)] by linarith
  have "sorted_wrt (\<lambda>a b. comparator lc col Asc a b \<le> 0) (sort_cmp (comparator lc col Asc) xs)"
  proof (rule sorted_sort_cmp [of "set xs"])
    show "comparator lc col Asc a b \<le> 0 \<or> comparator lc col Asc b a \<le> 0"
      if "a \<in> set xs" "b \<in> set xs" for a b
      using tot [OF that] by (simp add: comparator_simps)
    show "comparator lc col Asc a e \<le> 0"
      if "a \<in> set xs" "b \<in> set xs" "e \<in> set xs" "comparator lc col Asc a b \<le> 0"
         "comparator lc col Asc b e \<le> 0" for a b e
      using tr [OF that(1) that(2) that(3)] that(4,5) by (simp add: comparator_simps)
    show "set xs \<subseteq> set xs" by simp
  qed
  then show ?thesis by (simp add: comparator_simps)
qed

lemma sort_desc_sorted:
  assumes c: "consistent_on lc (sortKey col ` set xs)"
  shows "sorted_wrt (\<lambda>a b. lc (sortKey col b) (sortKey col a) \<le> 0)
           (sort_cmp (comparator lc col Desc) xs)"
proof -
  let ?k = "sortKey col"
  have flip: "(lc (?k x) (?k y) < 0) = (0 < lc (?k y) (?k x))" if "x \<in> set xs" "y \<in> set xs" for x y
    using c that unfolding consistent_on_def by blast
  have tr: "lc (?k x) (?k z) \<le> 0"
    if "x \<in> set xs" "y \<in> set xs" "z \<in> set xs" "lc (?k x) (?k y) \<le> 0" "lc (?k y) (?k z) \<le> 0" for x y z
  proof -
    from c have "\<forall>u \<in> ?k ` set xs. \<forall>v \<in> ?k ` set xs. \<forall>w \<in> ?k ` set xs.
                   lc u v \<le> 0 \<and> lc v w \<le> 0 \<longrightarrow> lc u w \<le> 0"
      unfolding consistent_on_def by blast
    with that show ?thesis by blast
  qed
  have tot: "lc (?k x) (?k y) \<le> 0 \<or> lc (?k y) (?k x) \<le> 0" if "x \<in> set xs" "y \<in> set xs" for x y
    using flip [OF that(2) that(1)] by linarith
  have "sorted_wrt (\<lambda>a b. comparator lc col Desc a b \<le> 0) (sort_cmp (comparator lc col Desc) xs)"
  proof (rule sorted_sort_cmp [of "set xs"])
    show "comparator lc col Desc a b \<le> 0 \<or> comparator lc col Desc b a \<le> 0"
      if "a \<in> set xs" "b \<in> set xs" for a b
      using tot [OF that(2) that(1)] by (simp add: comparator_simps)
    show "comparator lc col Desc a e \<le> 0"
      if "a \<in> set xs" "b \<in> set xs" "e \<in> set xs" "comparator lc col Desc a b \<le> 0"
         "comparator lc col Desc b e \<le> 0" for a b e
      using tr [OF that(3) that(2) that(1)] that(4,5) by (simp add: comparator_simps)
    show "set xs \<subseteq> set xs" by simp
  qed
  then show ?thesis by (simp add: comparator_simps)
qed

lemma sort_desc_rev_asc:
  assumes c: "consistent_on lc (sortKey col ` set xs)"
    and n: "no_ties lc col xs"
  shows "sort_cmp (comparator lc col Desc) xs = rev (sort_cmp (comparator lc col Asc) xs)"
proof -
  let ?k = "sortKey col"
  let ?D = "sort_cmp (comparator lc col Desc) xs"
  let ?A = "sort_cmp (comparator lc col Asc) xs"
  let ?Q = "\<lambda>x y. lc (?k y) (?k x) < 0"
  from no_ties_separates [OF c _ n] have dx: "distinct xs"
    and sep': "\<forall>a \<in> set xs. \<forall>b \<in> set xs. a \<noteq> b \<longrightarrow> lc (?k a) (?k b) \<noteq> 0"
    by blast+
  have sep: "lc (?k x) (?k y) \<noteq> 0" if "x \<in> set xs" "y \<in> set xs" "x \<noteq> y" for x y
    using sep' that by blast
  have flip: "(lc (?k x) (?k y) < 0) = (0 < lc (?k y) (?k x))" if "x \<in> set xs" "y \<in> set xs" for x y
    using c that unfolding consistent_on_def by blast
  have qD: "sorted_wrt ?Q ?D"
  proof (rule sorted_wrt_strengthen [OF sort_desc_sorted [OF c]])
    show "distinct ?D" using dx by (simp add: distinct_sort_cmp)
    show "lc (?k y) (?k x) < 0"
      if "x \<in> set ?D" "y \<in> set ?D" "x \<noteq> y" "lc (?k y) (?k x) \<le> 0" for x y
    proof -
      from that(1,2) have m: "x \<in> set xs" "y \<in> set xs" by (simp_all add: set_sort_cmp)
      from sep [OF m(2) m(1)] that(3) have "lc (?k y) (?k x) \<noteq> 0" by blast
      with that(4) show ?thesis by simp
    qed
  qed
  have qA: "sorted_wrt (\<lambda>x y. lc (?k x) (?k y) < 0) ?A"
  proof (rule sorted_wrt_strengthen [OF sort_asc_sorted [OF c]])
    show "distinct ?A" using dx by (simp add: distinct_sort_cmp)
    show "lc (?k x) (?k y) < 0"
      if "x \<in> set ?A" "y \<in> set ?A" "x \<noteq> y" "lc (?k x) (?k y) \<le> 0" for x y
    proof -
      from that(1,2) have m: "x \<in> set xs" "y \<in> set xs" by (simp_all add: set_sort_cmp)
      from sep [OF m that(3)] that(4) show ?thesis by simp
    qed
  qed
  then have qR: "sorted_wrt ?Q (rev ?A)" by (simp add: sorted_wrt_rev)
  show ?thesis
  proof (rule sorted_wrt_unique [of ?D ?Q, OF _ qD qR])
    show "distinct ?D" using dx by (simp add: distinct_sort_cmp)
    show "distinct (rev ?A)" using dx by (simp add: distinct_sort_cmp)
    show "set ?D = set (rev ?A)" by (simp add: set_sort_cmp)
    show "\<not> lc (?k x) (?k y) < 0" if "x \<in> set ?D" "y \<in> set ?D" "lc (?k y) (?k x) < 0" for x y
    proof -
      from that(1,2) have m: "x \<in> set xs" "y \<in> set xs" by (simp_all add: set_sort_cmp)
      from flip [OF m] that(3) show ?thesis by linarith
    qed
  qed
qed

lemma sortArticles_store:
  assumes "articles < length st"
  shows "fst (sortArticles lc st articles col dir) ! snd (sortArticles lc st articles col dir)
           = sort_cmp (comparator lc col dir) (st ! articles)"
    and "snd (sortArticles lc st articles col dir) = length st"
    and "take (length st) (fst (sortArticles lc st articles col dir)) = st"
  using assms by (simp_all add: sortArticles_def spread_def array_sort_def nth_append)

text \<open>
  C7, as amended. For every collection, every sort column and every \<open>localeCompare\<close> that
  is a consistent comparator on the keys that occur: when no two articles compare as equal
  on the column, sorting descending gives the reverse of sorting ascending. The ascending
  result holds the articles of the input in the order of the comparator. Neither call
  changes an array of the store it was given (the sort works on a copy at a new
  reference). The key is the title for the column title, the status for the column status,
  the string form of the network id for the column networkId and the creation date for the
  column createdAt, the last two being the empty string when the field is missing.
\<close>

theorem sort_desc_reverse_without_ties:
  assumes "articles < length st"
    and "consistent_on lc (sortKey col ` set (st ! articles))"
    and "no_ties lc col (st ! articles)"
  shows "fst (sortArticles lc st articles col Desc) ! snd (sortArticles lc st articles col Desc)
           = rev (fst (sortArticles lc st articles col Asc) ! snd (sortArticles lc st articles col Asc)) \<and>
         (\<forall>r < length st. fst (sortArticles lc st articles col Desc) ! r = st ! r) \<and>
         (\<forall>r < length st. fst (sortArticles lc st articles col Asc) ! r = st ! r) \<and>
         set (fst (sortArticles lc st articles col Asc) ! snd (sortArticles lc st articles col Asc))
           = set (st ! articles) \<and>
         sorted_wrt (\<lambda>a b. lc (sortKey col a) (sortKey col b) \<le> 0)
           (fst (sortArticles lc st articles col Asc) ! snd (sortArticles lc st articles col Asc)) \<and>
         (\<forall>a. sortKey Title a = title a) \<and>
         (\<forall>a. sortKey Status a = status a) \<and>
         (\<forall>a. networkId a = None \<longrightarrow> sortKey NetworkId a = []) \<and>
         (\<forall>a i. networkId a = Some i \<longrightarrow> sortKey NetworkId a = String_id i) \<and>
         (\<forall>a. createdAt a = None \<longrightarrow> sortKey CreatedAt a = []) \<and>
         (\<forall>a s. createdAt a = Some s \<longrightarrow> sortKey CreatedAt a = s)"
proof -
  have r: "fst (sortArticles lc st articles col Desc) ! snd (sortArticles lc st articles col Desc)
           = rev (fst (sortArticles lc st articles col Asc) ! snd (sortArticles lc st articles col Asc))"
    using sort_desc_rev_asc [OF assms(2,3)] by (simp only: sortArticles_store(1) [OF assms(1)])
  have keep: "fst (sortArticles lc st articles col dir) ! r = st ! r" if "r < length st" for r dir
  proof -
    from that have "take (length st) (fst (sortArticles lc st articles col dir)) ! r
                    = fst (sortArticles lc st articles col dir) ! r"
      by (rule nth_take)
    then show ?thesis by (simp only: sortArticles_store(3) [OF assms(1)])
  qed
  have kD: "\<forall>r < length st. fst (sortArticles lc st articles col Desc) ! r = st ! r"
    using keep by blast
  have kA: "\<forall>r < length st. fst (sortArticles lc st articles col Asc) ! r = st ! r"
    using keep by blast
  have s: "set (fst (sortArticles lc st articles col Asc) ! snd (sortArticles lc st articles col Asc))
           = set (st ! articles)"
    by (simp only: sortArticles_store(1) [OF assms(1)] set_sort_cmp)
  have o: "sorted_wrt (\<lambda>a b. lc (sortKey col a) (sortKey col b) \<le> 0)
           (fst (sortArticles lc st articles col Asc) ! snd (sortArticles lc st articles col Asc))"
    using sort_asc_sorted [OF assms(2)] by (simp only: sortArticles_store(1) [OF assms(1)])
  have k1: "\<forall>a. sortKey Title a = title a" by simp
  have k2: "\<forall>a. sortKey Status a = status a" by simp
  have k3: "\<forall>a. networkId a = None \<longrightarrow> sortKey NetworkId a = []" by simp
  have k4: "\<forall>a i. networkId a = Some i \<longrightarrow> sortKey NetworkId a = String_id i" by simp
  have k5: "\<forall>a. createdAt a = None \<longrightarrow> sortKey CreatedAt a = []" by simp
  have k6: "\<forall>a s. createdAt a = Some s \<longrightarrow> sortKey CreatedAt a = s" by simp
  from r kD kA s o k1 k2 k3 k4 k5 k6 show ?thesis by (intro conjI)
qed

lemma titles_consistent: "consistent_on unit_compare {''b'', ''a'', ''c''}"
  by (simp add: consistent_on_def)

theorem sort_desc_reverse_without_ties_witness:
  "(0::nat) < length shelf \<and>
   map title (fst (sortArticles unit_compare shelf 0 Title Asc) ! snd (sortArticles unit_compare shelf 0 Title Asc))
     = [''a'', ''b'', ''c''] \<and>
   map title (fst (sortArticles unit_compare shelf 0 Title Desc) ! snd (sortArticles unit_compare shelf 0 Title Desc))
     = [''c'', ''b'', ''a''] \<and>
   fst (sortArticles unit_compare shelf 0 Title Desc) ! 0 = shelf ! 0"
proof -
  have h1: "(0::nat) < length shelf" by (simp add: shelf_def)
  have h2: "consistent_on unit_compare (sortKey Title ` set (shelf ! 0))"
    using titles_consistent by (simp add: shelf_def titled_def)
  have h3: "no_ties unit_compare Title (shelf ! 0)" by (simp add: shelf_def titled_def)
  have asc: "fst (sortArticles unit_compare shelf 0 Title Asc) ! snd (sortArticles unit_compare shelf 0 Title Asc)
     = [titled ''a'', titled ''b'', titled ''c'']"
    by (simp add: sortArticles_def spread_def array_sort_def sort_cmp_def comparator_def shelf_def
        titled_def)
  from sort_desc_reverse_without_ties [OF h1 h2 h3] h1
  have d: "fst (sortArticles unit_compare shelf 0 Title Desc) ! snd (sortArticles unit_compare shelf 0 Title Desc)
     = rev (fst (sortArticles unit_compare shelf 0 Title Asc) ! snd (sortArticles unit_compare shelf 0 Title Asc))"
    and k: "fst (sortArticles unit_compare shelf 0 Title Desc) ! 0 = shelf ! 0"
    by blast+
  from h1 d k asc show ?thesis by (simp add: titled_def)
qed

text \<open>
  C7 as stated fails: the titles "a" and "a" followed by a soft hyphen are different keys,
  so no two articles have equal keys on the column title, yet the keys compare as equal
  under a collation for which the soft hyphen is ignorable. The stable sort then leaves
  the two articles in their order for both directions, and the descending result is the
  ascending result, not its reverse.
\<close>

theorem sort_desc_reverse_counterexample:
  "distinct (map (sortKey Title) (hyphen_shelf ! 0)) \<and>
   soft_compare ''a'' (''a'' @ [CHR 0xAD]) = 0 \<and>
   soft_compare (''a'' @ [CHR 0xAD]) ''a'' = 0 \<and>
   soft_compare ''a'' ''a'' = 0 \<and>
   soft_compare (''a'' @ [CHR 0xAD]) (''a'' @ [CHR 0xAD]) = 0 \<and>
   fst (sortArticles soft_compare hyphen_shelf 0 Title Desc) ! snd (sortArticles soft_compare hyphen_shelf 0 Title Desc)
     = fst (sortArticles soft_compare hyphen_shelf 0 Title Asc) ! snd (sortArticles soft_compare hyphen_shelf 0 Title Asc) \<and>
   fst (sortArticles soft_compare hyphen_shelf 0 Title Desc) ! snd (sortArticles soft_compare hyphen_shelf 0 Title Desc)
     \<noteq> rev (fst (sortArticles soft_compare hyphen_shelf 0 Title Asc) ! snd (sortArticles soft_compare hyphen_shelf 0 Title Asc))"
  by (simp add: sortArticles_def spread_def array_sort_def sort_cmp_def comparator_def
      hyphen_shelf_def titled_def soft_compare_def)


end
